theory Spec2Isabelle
  imports Main "HOL-Library.Word" "HOL-Library.Multiset"
begin

section \<open>JavaScript strings\<close>

text \<open>
  A JavaScript string is a sequence of 16-bit code units; \<open>length\<close> counts code units.
  \<open>js\<close> writes an ASCII literal of the source as such a sequence.
\<close>

type_synonym jschar = "16 word"
type_synonym jsstring = "jschar list"

definition js :: "string \<Rightarrow> jsstring" where
  "js s = map (\<lambda>c. of_nat (of_char c)) s"

text \<open>
  The white space of ECMAScript: the class \<open>\s\<close> of a regular expression and the code
  units \<open>String.prototype.trim\<close> strips are the same set (WhiteSpace and LineTerminator).
\<close>

definition is_ws :: "jschar \<Rightarrow> bool" where
  "is_ws c = (c = 0x09 \<or> c = 0x0A \<or> c = 0x0B \<or> c = 0x0C \<or> c = 0x0D \<or> c = 0x20
      \<or> c = 0xA0 \<or> c = 0x1680 \<or> (0x2000 \<le> c \<and> c \<le> 0x200A)
      \<or> c = 0x2028 \<or> c = 0x2029 \<or> c = 0x202F \<or> c = 0x205F \<or> c = 0x3000
      \<or> c = 0xFEFF)"

text \<open>The class \<open>[a-zA-Z]\<close>.\<close>

definition is_alpha :: "jschar \<Rightarrow> bool" where
  "is_alpha c = ((0x61 \<le> c \<and> c \<le> 0x7A) \<or> (0x41 \<le> c \<and> c \<le> 0x5A))"

text \<open>\<open>s.trim()\<close>: leading and trailing white space removed.\<close>

definition trim :: "jsstring \<Rightarrow> jsstring" where
  "trim s = rev (dropWhile is_ws (rev (dropWhile is_ws s)))"

text \<open>\<open>s.replace(/\s+/g, ' ')\<close>: every maximal run of white space becomes one space.\<close>

function replace_ws :: "jsstring \<Rightarrow> jsstring" where
  "replace_ws [] = []"
| "replace_ws (c # cs) =
     (if is_ws c then 0x20 # replace_ws (dropWhile is_ws cs) else c # replace_ws cs)"
  by pat_completeness auto
termination
  by (relation "measure length") (auto simp: le_imp_less_Suc length_dropWhile_le)

text \<open>\<open>s.match(/[a-zA-Z]{3,}/)\<close> is not null: three letters in a row occur in \<open>s\<close>.\<close>

fun match_alpha3 :: "jsstring \<Rightarrow> bool" where
  "match_alpha3 (a # b # c # rest) =
     ((is_alpha a \<and> is_alpha b \<and> is_alpha c) \<or> match_alpha3 (b # c # rest))"
| "match_alpha3 _ = False"

text \<open>\<open>s.endsWith(t)\<close>.\<close>

definition endsWith :: "jsstring \<Rightarrow> jsstring \<Rightarrow> bool" where
  "endsWith s t = (length t \<le> length s \<and> drop (length s - length t) s = t)"

section \<open>The parsed document\<close>

text \<open>
  What the callback reads of the DOM: of an element its \<open>textContent\<close>, \<open>innerHTML\<close>,
  \<open>outerHTML\<close> and child elements; of the document its \<open>body\<close>, which may be null.
\<close>

datatype element =
  Element (textContent: jsstring) (innerHTML: jsstring) (outerHTML: jsstring)
    (children: "element list")

datatype document = Document (body: "element option")

definition bodyText :: "document \<Rightarrow> jsstring" where
  "bodyText doc = (case body doc of Some b \<Rightarrow> trim (textContent b) | None \<Rightarrow> [])"

definition bodyHTML :: "document \<Rightarrow> jsstring" where
  "bodyHTML doc = (case body doc of Some b \<Rightarrow> trim (innerHTML b) | None \<Rightarrow> [])"

definition cleanText :: "document \<Rightarrow> jsstring" where
  "cleanText doc = trim (replace_ws (bodyText doc))"

definition cleanHTML :: "document \<Rightarrow> jsstring" where
  "cleanHTML doc = trim (replace_ws (bodyHTML doc))"

definition isBlankPage :: "document \<Rightarrow> bool" where
  "isBlankPage doc =
     (cleanText doc = [] \<or>
      cleanHTML doc = [] \<or>
      length (cleanText doc) = 0 \<or>
      length (cleanHTML doc) = 0 \<or>
      cleanText doc = [0x20] \<or>
      cleanHTML doc = [0x20] \<or>
      (case body doc of None \<Rightarrow> False | Some b \<Rightarrow> length (children b) = 0) \<or>
      (case body doc of None \<Rightarrow> False
       | Some b \<Rightarrow> (case children b of [c] \<Rightarrow> trim (textContent c) = [] | _ \<Rightarrow> False)) \<or>
      (length (cleanText doc) < 20 \<and> \<not> match_alpha3 (cleanText doc)))"

text \<open>The verdict of the specification, read off the flag the callback computes.\<close>

datatype verdict = Blank | Substantive

definition classify :: "document \<Rightarrow> verdict" where
  "classify doc = (if isBlankPage doc then Blank else Substantive)"

subsection \<open>The seven conditions in the words of the specification\<close>

text \<open>Normalising: runs of white space collapsed to one space, then the ends trimmed.\<close>

definition normalise_ws :: "jsstring \<Rightarrow> jsstring" where
  "normalise_ws s = trim (replace_ws s)"

definition root_text :: "document \<Rightarrow> jsstring" where
  "root_text doc = (case body doc of Some b \<Rightarrow> textContent b | None \<Rightarrow> [])"

definition root_markup :: "document \<Rightarrow> jsstring" where
  "root_markup doc = (case body doc of Some b \<Rightarrow> innerHTML b | None \<Rightarrow> [])"

definition alpha_run3 :: "jsstring \<Rightarrow> bool" where
  "alpha_run3 s =
     (\<exists>pre mid post. s = pre @ mid @ post \<and> 3 \<le> length mid \<and> (\<forall>c \<in> set mid. is_alpha c))"

definition seven_conditions :: "document \<Rightarrow> bool" where
  "seven_conditions doc =
     (normalise_ws (root_text doc) = [] \<or>
      normalise_ws (root_markup doc) = [] \<or>
      normalise_ws (root_text doc) = [0x20] \<or>
      normalise_ws (root_markup doc) = [0x20] \<or>
      (\<exists>b. body doc = Some b \<and> children b = []) \<or>
      (\<exists>b c. body doc = Some b \<and> children b = [c] \<and> trim (textContent c) = []) \<or>
      (length (normalise_ws (root_text doc)) < 20 \<and> \<not> alpha_run3 (normalise_ws (root_text doc))))"

section \<open>The per-file callback\<close>

record child =
  path :: jsstring
  ext :: "jsstring option"

text \<open>The outcomes of the two remote calls of the callback, and the requests it sends.\<close>

datatype source_outcome = SourceThrew | SourceNotOk | SourceText jsstring

datatype publish_outcome = PublishThrew | PublishResponse bool

datatype request = GET jsstring | POST jsstring jsstring

datatype outcome = Fulfilled | Rejected

text \<open>
  The outcome of listing a folder: the request or the reading of its JSON threw, the
  response was not ok, or the children arrived.
\<close>

datatype list_outcome = ListThrew | ListNotOk | ListJson "child list"

record remote =
  list_resp :: "jsstring \<Rightarrow> list_outcome"
  source_resp :: "jsstring \<Rightarrow> source_outcome"
  parse :: "jsstring \<Rightarrow> document"
  publish_resp :: "jsstring \<Rightarrow> jsstring \<Rightarrow> publish_outcome"

definition source_url :: "jsstring \<Rightarrow> jsstring" where
  "source_url p = js ''https://admin.da.live/source'' @ p"

text \<open>
  One run of the callback on an item: the requests it sends, in order, and how its promise
  settles. A rejected fetch, and \<open>dom.body.outerHTML\<close> on a null body, reject it.
\<close>

definition callback :: "remote \<Rightarrow> child \<Rightarrow> request list \<times> outcome" where
  "callback env item =
     (if \<not> endsWith (path item) (js ''.html'') then ([], Fulfilled)
      else
        (case source_resp env (path item) of
           SourceThrew \<Rightarrow> ([GET (source_url (path item))], Rejected)
         | SourceNotOk \<Rightarrow> ([GET (source_url (path item))], Fulfilled)
         | SourceText text \<Rightarrow>
             (let doc = parse env text in
              if isBlankPage doc then ([GET (source_url (path item))], Fulfilled)
              else
                (case body doc of
                   None \<Rightarrow> ([GET (source_url (path item))], Rejected)
                 | Some b \<Rightarrow>
                     ([GET (source_url (path item)),
                       POST (source_url (path item)) (outerHTML b)],
                      (case publish_resp env (path item) (outerHTML b) of
                         PublishThrew \<Rightarrow> Rejected
                       | PublishResponse ok \<Rightarrow> Fulfilled))))))"

fun is_post :: "request \<Rightarrow> bool" where
  "is_post (POST u d) = True"
| "is_post (GET u) = False"

definition publishes :: "remote \<Rightarrow> child \<Rightarrow> request list" where
  "publishes env item = filter is_post (fst (callback env item))"

section \<open>The crawl\<close>

text \<open>
  An entry of a listing is a file when its \<open>ext\<close> is truthy: present and not the empty
  string. Every other entry is a folder.
\<close>

definition is_file :: "child \<Rightarrow> bool" where
  "is_file c = (case ext c of None \<Rightarrow> False | Some e \<Rightarrow> e \<noteq> [])"

definition subfolders :: "child list \<Rightarrow> jsstring list" where
  "subfolders cs = map path (filter (\<lambda>c. \<not> is_file c) cs)"

text \<open>
  What \<open>callback(child).catch(console.error)\<close> can do. An async function runs its body up
  to the first await: a body with no await to reach has finished when the call returns
  (\<open>Immediate\<close>); otherwise the work is suspended and finishes later (\<open>Deferred\<close>).
  Either way the promise it returned settles with the given outcome. A callback that is
  not an async function can throw in the call itself, or return no promise, so that
  \<open>.catch\<close> throws (\<open>Throws\<close>).
\<close>

datatype invocation = Immediate outcome | Deferred outcome | Throws

type_synonym file_callback = "child \<Rightarrow> invocation"

text \<open>The callback \<open>main\<close> passes: it returns at once on a path that is no document.\<close>

definition main_callback :: "remote \<Rightarrow> file_callback" where
  "main_callback env item =
     (if \<not> endsWith (path item) (js ''.html'') then Immediate Fulfilled
      else Deferred (snd (callback env item)))"

datatype log_entry = ListError jsstring | CallbackError child

text \<open>
  The state of one call of \<open>crawl\<close>. \<open>files\<close>, \<open>folders\<close> and \<open>inProgress\<close> are the three
  arrays of the source, \<open>interval\<close> says whether the timer is still set and \<open>results\<close>
  is the promise (\<open>None\<close> while pending). \<open>awaiting\<close> holds the \<open>currentPath\<close> of every
  timer callback suspended at its list request, \<open>running\<close> the items of the file
  callbacks that have not finished. \<open>listed\<close>, \<open>reported\<close> and \<open>logged\<close> record, in order,
  the list requests sent, the calls of the callback and the calls of \<open>console.error\<close>
  (those of one event in the order of the statements that cause them, not in the order
  of the microtasks that print them).
\<close>

record crawl_state =
  files :: "child list"
  folders :: "jsstring list"
  inProgress :: "bool list"
  interval :: bool
  results :: "child list option"
  awaiting :: "jsstring list"
  running :: "child list"
  listed :: "jsstring list"
  reported :: "child list"
  logged :: "log_entry list"

text \<open>
  \<open>crawl({ path, callback, concurrent })\<close> up to the return: the arrays are set up and
  the timer is set (\<open>setInterval\<close>, every 100 ms). \<open>concurrent\<close> is not read. The callback
  is a parameter of the events below.
\<close>

definition crawl :: "jsstring \<Rightarrow> nat \<Rightarrow> crawl_state" where
  "crawl p concurrent =
     \<lparr>files = [], folders = [p], inProgress = [], interval = True, results = None,
      awaiting = [], running = [], listed = [], reported = [], logged = []\<rparr>"

text \<open>The last statement of the timer callback; a promise resolved once stays so.\<close>

definition check_done :: "crawl_state \<Rightarrow> crawl_state" where
  "check_done s =
     (if length (inProgress s) = 0 \<and> length (folders s) = 0
      then s\<lparr>interval := False,
             results := (case results s of None \<Rightarrow> Some (files s) | Some fs \<Rightarrow> Some fs)\<rparr>
      else s)"

text \<open>
  The timer fires: with a folder in the frontier the callback takes it, sends the list
  request and is suspended there; with none it goes straight to its last statement.
\<close>

definition tick :: "crawl_state \<Rightarrow> crawl_state option" where
  "tick s =
     (if \<not> interval s then None
      else if length (folders s) > 0
      then Some (s\<lparr>inProgress := inProgress s @ [True],
                   folders := butlast (folders s),
                   awaiting := awaiting s @ [last (folders s)],
                   listed := listed s @ [last (folders s)]\<rparr>)
      else Some (check_done s))"

text \<open>
  The body of \<open>json.forEach\<close> on one child: \<open>Inr\<close> the state when it returns, \<open>Inl\<close> the
  state when it throws. The file is pushed before the callback is called.
\<close>

definition each_child ::
  "file_callback option \<Rightarrow> crawl_state \<Rightarrow> child \<Rightarrow> crawl_state + crawl_state" where
  "each_child cb s c =
     (if is_file c then
        (case cb of
           None \<Rightarrow> Inr (s\<lparr>files := files s @ [c]\<rparr>)
         | Some f \<Rightarrow>
             (case f c of
                Immediate Fulfilled \<Rightarrow>
                  Inr (s\<lparr>files := files s @ [c], reported := reported s @ [c]\<rparr>)
              | Immediate Rejected \<Rightarrow>
                  Inr (s\<lparr>files := files s @ [c], reported := reported s @ [c],
                         logged := logged s @ [CallbackError c]\<rparr>)
              | Deferred r \<Rightarrow>
                  Inr (s\<lparr>files := files s @ [c], reported := reported s @ [c],
                         running := running s @ [c]\<rparr>)
              | Throws \<Rightarrow>
                  Inl (s\<lparr>files := files s @ [c], reported := reported s @ [c]\<rparr>)))
      else Inr (s\<lparr>folders := folders s @ [path c]\<rparr>))"

text \<open>\<open>json.forEach\<close>: an exception of the body ends the loop and leaves it.\<close>

fun forEach ::
  "file_callback option \<Rightarrow> crawl_state \<Rightarrow> child list \<Rightarrow> crawl_state + crawl_state" where
  "forEach cb s [] = Inr s"
| "forEach cb s (c # cs) =
     (case each_child cb s c of Inl t \<Rightarrow> Inl t | Inr t \<Rightarrow> forEach cb t cs)"

text \<open>
  The \<open>try\<close> block of the timer callback from the answer of the list request on: the
  children are handled one by one; a response that is not ok is passed over; an exception,
  of the request or of the loop, is caught and logged.
\<close>

definition expand :: "remote \<Rightarrow> file_callback option \<Rightarrow> jsstring \<Rightarrow> crawl_state \<Rightarrow> crawl_state" where
  "expand env cb currentPath s =
     (case list_resp env currentPath of
        ListJson json \<Rightarrow>
          (case forEach cb s json of
             Inr t \<Rightarrow> t
           | Inl t \<Rightarrow> t\<lparr>logged := logged t @ [ListError currentPath]\<rparr>)
      | ListNotOk \<Rightarrow> s
      | ListThrew \<Rightarrow> s\<lparr>logged := logged s @ [ListError currentPath]\<rparr>)"

text \<open>
  The list request of the \<open>i\<close>-th suspended timer callback is answered and the callback
  runs to its end: the \<open>try\<close> block, \<open>inProgress.pop()\<close>, the last statement.
\<close>

definition list_response ::
  "remote \<Rightarrow> file_callback option \<Rightarrow> nat \<Rightarrow> crawl_state \<Rightarrow> crawl_state option" where
  "list_response env cb i s =
     (if i < length (awaiting s) then
        (let s1 = expand env cb (awaiting s ! i)
                    (s\<lparr>awaiting := take i (awaiting s) @ drop (Suc i) (awaiting s)\<rparr>)
         in Some (check_done (s1\<lparr>inProgress := butlast (inProgress s1)\<rparr>)))
      else None)"

text \<open>The \<open>i\<close>-th running file callback finishes; a rejection goes to \<open>console.error\<close>.\<close>

definition callback_settled ::
  "file_callback option \<Rightarrow> nat \<Rightarrow> crawl_state \<Rightarrow> crawl_state option" where
  "callback_settled cb i s =
     (case cb of
        None \<Rightarrow> None
      | Some f \<Rightarrow>
          (if i < length (running s) then
             (let c = running s ! i;
                  s0 = s\<lparr>running := take i (running s) @ drop (Suc i) (running s)\<rparr>
              in (case f c of
                    Deferred Rejected \<Rightarrow> Some (s0\<lparr>logged := logged s0 @ [CallbackError c]\<rparr>)
                  | _ \<Rightarrow> Some s0))
           else None))"

datatype event = Tick | ListResponse nat | CallbackSettled nat

fun fire :: "remote \<Rightarrow> file_callback option \<Rightarrow> event \<Rightarrow> crawl_state \<Rightarrow> crawl_state option" where
  "fire env cb Tick s = tick s"
| "fire env cb (ListResponse i) s = list_response env cb i s"
| "fire env cb (CallbackSettled i) s = callback_settled cb i s"

text \<open>A schedule is a list of events; it runs as long as each event can happen.\<close>

fun run ::
  "remote \<Rightarrow> file_callback option \<Rightarrow> event list \<Rightarrow> crawl_state \<Rightarrow> crawl_state option" where
  "run env cb [] s = Some s"
| "run env cb (e # es) s =
     (case fire env cb e s of None \<Rightarrow> None | Some s' \<Rightarrow> run env cb es s')"

subsection \<open>The remote tree\<close>

text \<open>
  What listing from a folder reaches within \<open>n\<close> levels: the files, the folders (the
  folder itself first), and whether the listing ends within \<open>n\<close> levels. A folder whose
  list request fails has nothing below it.
\<close>

fun tree_files :: "remote \<Rightarrow> nat \<Rightarrow> jsstring \<Rightarrow> child list" where
  "tree_files env 0 p = []"
| "tree_files env (Suc n) p =
     (case list_resp env p of
        ListJson json \<Rightarrow> filter is_file json @ concat (map (tree_files env n) (subfolders json))
      | _ \<Rightarrow> [])"

fun tree_folders :: "remote \<Rightarrow> nat \<Rightarrow> jsstring \<Rightarrow> jsstring list" where
  "tree_folders env 0 p = [p]"
| "tree_folders env (Suc n) p =
     p # (case list_resp env p of
            ListJson json \<Rightarrow> concat (map (tree_folders env n) (subfolders json))
          | _ \<Rightarrow> [])"

fun finite_tree :: "remote \<Rightarrow> nat \<Rightarrow> jsstring \<Rightarrow> bool" where
  "finite_tree env 0 p = False"
| "finite_tree env (Suc n) p =
     (case list_resp env p of
        ListJson json \<Rightarrow> list_all (finite_tree env n) (subfolders json)
      | _ \<Rightarrow> True)"

subsection \<open>Waiting for the results\<close>

text \<open>
  An event is productive when it can happen and is not a tick that finds the frontier
  empty while a list request is unanswered (such a tick changes nothing).
\<close>

fun productive :: "event \<Rightarrow> crawl_state \<Rightarrow> bool" where
  "productive Tick s = (interval s \<and> (folders s \<noteq> [] \<or> inProgress s = []))"
| "productive (ListResponse i) s = (i < length (awaiting s))"
| "productive (CallbackSettled i) s = (i < length (running s))"

text \<open>
  A scheduler proposes the next event from the state; a proposal that is not productive
  is replaced by the timer when the frontier has a folder and by the oldest unanswered
  list request otherwise.
\<close>

definition schedule :: "(crawl_state \<Rightarrow> event) \<Rightarrow> crawl_state \<Rightarrow> event" where
  "schedule pick s =
     (if productive (pick s) s then pick s
      else if folders s \<noteq> [] then Tick else ListResponse 0)"

text \<open>
  \<open>await results\<close> under a scheduler, for at most \<open>n\<close> productive events: the value
  the promise is resolved with, \<open>None\<close> when it is still pending after them. Only
  productive events are counted, so every list request sent is answered in the end, with
  whatever outcome.
\<close>

fun await_results ::
  "remote \<Rightarrow> file_callback option \<Rightarrow> (crawl_state \<Rightarrow> event) \<Rightarrow> nat \<Rightarrow> crawl_state
    \<Rightarrow> child list option" where
  "await_results env cb pick 0 s = results s"
| "await_results env cb pick (Suc n) s =
     (case results s of
        Some fs \<Rightarrow> Some fs
      | None \<Rightarrow>
          (case fire env cb (schedule pick s) s of
             None \<Rightarrow> None
           | Some s' \<Rightarrow> await_results env cb pick n s'))"

text \<open>
  The productive events of a crawl of the tree below \<open>p\<close>: a tick and a list response
  for every folder, and at most one completion for every file.
\<close>

definition crawl_work :: "remote \<Rightarrow> nat \<Rightarrow> jsstring \<Rightarrow> nat" where
  "crawl_work env n p = 2 * length (tree_folders env n p) + length (tree_files env n p)"

subsection \<open>What the console does not show\<close>

text \<open>A state with the record of \<open>console.error\<close> wiped.\<close>

definition unlogged :: "crawl_state \<Rightarrow> crawl_state" where
  "unlogged s = s\<lparr>logged := []\<rparr>"

text \<open>The same callback with every rejection turned into a fulfilment.\<close>

definition never_rejects :: "file_callback \<Rightarrow> file_callback" where
  "never_rejects f c =
     (case f c of
        Immediate r \<Rightarrow> Immediate Fulfilled
      | Deferred r \<Rightarrow> Deferred Fulfilled
      | Throws \<Rightarrow> Throws)"

text \<open>A callback that is an async function, or none: no call of it throws.\<close>

definition async_callback :: "file_callback option \<Rightarrow> bool" where
  "async_callback cb = (case cb of None \<Rightarrow> True | Some f \<Rightarrow> \<forall>c. f c \<noteq> Throws)"

text \<open>The same remote with every failed list request answered by an empty listing.\<close>

definition failed_as_empty :: "remote \<Rightarrow> remote" where
  "failed_as_empty env =
     env\<lparr>list_resp := (\<lambda>p. case list_resp env p of
                              ListJson json \<Rightarrow> ListJson json
                            | _ \<Rightarrow> ListJson [])\<rparr>"

section \<open>Vocabulary of the proofs\<close>

text \<open>\<open>s.trimEnd()\<close>: \<open>trim\<close> is \<open>trimEnd\<close> after the leading white space is dropped.\<close>

definition trimEnd :: "jsstring \<Rightarrow> jsstring" where
  "trimEnd s = rev (dropWhile is_ws (rev s))"

text \<open>The children a list request delivers; none when it fails.\<close>

definition listing :: "remote \<Rightarrow> jsstring \<Rightarrow> child list" where
  "listing env p = (case list_resp env p of ListJson json \<Rightarrow> json | _ \<Rightarrow> [])"

text \<open>The state the loop body or the loop ends in, returning or throwing.\<close>

definition reached :: "crawl_state + crawl_state \<Rightarrow> crawl_state" where
  "reached r = (case r of Inl t \<Rightarrow> t | Inr t \<Rightarrow> t)"

text \<open>The children of a listing the loop gets to: those up to the first call that throws.\<close>

definition throws_on :: "file_callback option \<Rightarrow> child \<Rightarrow> bool" where
  "throws_on cb c = (is_file c \<and> (case cb of None \<Rightarrow> False | Some f \<Rightarrow> f c = Throws))"

fun handled :: "file_callback option \<Rightarrow> child list \<Rightarrow> child list" where
  "handled cb [] = []"
| "handled cb (c # cs) = (if throws_on cb c then [c] else c # handled cb cs)"

text \<open>
  What holds between events of every run: one entry of \<open>inProgress\<close> per suspended timer
  callback; the promise resolved exactly when frontier and \<open>inProgress\<close> are empty; the
  timer set exactly while the promise is pending; the promise resolved with \<open>files\<close>.
\<close>

definition sched_inv :: "crawl_state \<Rightarrow> bool" where
  "sched_inv s =
     (length (inProgress s) = length (awaiting s) \<and>
      (results s \<noteq> None) = (folders s = [] \<and> inProgress s = []) \<and>
      interval s = (results s = None) \<and>
      (results s = None \<or> results s = Some (files s)))"

text \<open>Everything \<open>f\<close> gives on the paths \<open>ps\<close>, as a multiset.\<close>

definition over :: "(jsstring \<Rightarrow> 'a list) \<Rightarrow> jsstring list \<Rightarrow> 'a multiset" where
  "over f ps = mset (concat (map f ps))"

text \<open>
  The balance of a crawl of the tree below \<open>root\<close>: the files recorded and the files
  still below the frontier and the folders being listed make up the files of the tree;
  the same for the list requests sent and the folders of the tree (a folder being listed is
  counted on both sides); the callback has been called on the files recorded.
\<close>

definition tree_inv ::
  "remote \<Rightarrow> nat \<Rightarrow> jsstring \<Rightarrow> file_callback option \<Rightarrow> crawl_state \<Rightarrow> bool" where
  "tree_inv env n root cb s =
     (list_all (finite_tree env n) (folders s @ awaiting s) \<and>
      mset (files s) + over (tree_files env n) (folders s @ awaiting s) =
        mset (tree_files env n root) \<and>
      mset (listed s) + over (tree_folders env n) (folders s @ awaiting s) =
        mset (tree_folders env n root) + mset (awaiting s) \<and>
      reported s = (case cb of None \<Rightarrow> [] | Some f \<Rightarrow> files s))"

text \<open>
  What the crawl keeps with any callback: the scheduler invariant, a finite tree below every
  folder it holds, running callbacks only when there is a callback; and the balance when
  the callback is async.
\<close>

definition crawl_inv ::
  "remote \<Rightarrow> nat \<Rightarrow> jsstring \<Rightarrow> file_callback option \<Rightarrow> crawl_state \<Rightarrow> bool" where
  "crawl_inv env n root cb s =
     (sched_inv s \<and> list_all (finite_tree env n) (folders s @ awaiting s) \<and>
      (async_callback cb \<longrightarrow> tree_inv env n root cb s) \<and>
      (cb = None \<longrightarrow> running s = []))"

text \<open>
  The productive events a state can still see: the work of every folder in the frontier,
  that of every folder being listed less its tick, and one per running callback.
\<close>

definition remaining :: "remote \<Rightarrow> nat \<Rightarrow> crawl_state \<Rightarrow> nat" where
  "remaining env n s =
     sum_list (map (crawl_work env n) (folders s)) +
     sum_list (map (\<lambda>p. crawl_work env n p - 1) (awaiting s)) +
     length (running s)"

text \<open>Two callbacks that suspend and throw on the same items, whatever their outcomes.\<close>

fun is_deferred :: "invocation \<Rightarrow> bool" where
  "is_deferred (Deferred r) = True"
| "is_deferred (Immediate r) = False"
| "is_deferred Throws = False"

definition defers :: "file_callback option \<Rightarrow> child \<Rightarrow> bool" where
  "defers cb c = (case cb of None \<Rightarrow> False | Some f \<Rightarrow> is_deferred (f c))"

definition same_shape :: "file_callback option \<Rightarrow> file_callback option \<Rightarrow> bool" where
  "same_shape cb cb' =
     (case cb of None \<Rightarrow> cb' = None
      | Some f \<Rightarrow> (case cb' of None \<Rightarrow> False
                   | Some f' \<Rightarrow>
                       \<forall>c. is_deferred (f' c) = is_deferred (f c) \<and>
                           (f' c = Throws) = (f c = Throws)))"

section \<open>A small remote tree\<close>

text \<open>
  The folder \<open>/r\<close> holds the document \<open>/r/a.html\<close> and the folders \<open>/r/s\<close> and \<open>/r/t\<close>;
  \<open>/r/s\<close> holds the document \<open>/r/s/b.html\<close>; listing \<open>/r/t\<close> throws. The first document
  has a paragraph of text, the second only digits.
\<close>

definition hello_doc :: document where
  "hello_doc = Document (Some (Element (js ''Hello world'') (js ''<p>Hello world</p>'')
     (js ''<body><p>Hello world</p></body>'')
     [Element (js ''Hello world'') (js ''Hello world'') (js ''<p>Hello world</p>'') []]))"

definition digits_doc :: document where
  "digits_doc = Document (Some (Element (js ''12 34  56 78 90 '') (js ''<p>12 34  56 78 90 </p>'')
     (js ''<body><p>12 34  56 78 90 </p></body>'')
     [Element (js ''12 34  56 78 90 '') (js ''12 34  56 78 90 '') (js ''<p>12 34  56 78 90 </p>'') []]))"

definition file_a :: child where
  "file_a = \<lparr>path = js ''/r/a.html'', ext = Some (js ''html'')\<rparr>"

definition file_b :: child where
  "file_b = \<lparr>path = js ''/r/s/b.html'', ext = Some (js ''html'')\<rparr>"

definition folder_s :: child where
  "folder_s = \<lparr>path = js ''/r/s'', ext = None\<rparr>"

definition folder_t :: child where
  "folder_t = \<lparr>path = js ''/r/t'', ext = None\<rparr>"

definition demo_remote :: remote where
  "demo_remote =
     \<lparr>list_resp = (\<lambda>p. if p = js ''/r'' then ListJson [file_a, folder_s, folder_t]
                        else if p = js ''/r/s'' then ListJson [file_b]
                        else if p = js ''/r/t'' then ListThrew
                        else ListNotOk),
      source_resp = (\<lambda>p. if p = js ''/r/a.html'' then SourceText (js ''A'')
                          else if p = js ''/r/s/b.html'' then SourceText (js ''B'')
                          else SourceNotOk),
      parse = (\<lambda>t. if t = js ''A'' then hello_doc
                    else if t = js ''B'' then digits_doc
                    else Document None),
      publish_resp = (\<lambda>p d. PublishResponse True)\<rparr>"

text \<open>A schedule of the crawl of \<open>/r\<close> and the state it ends in.\<close>

definition demo_events :: "event list" where
  "demo_events = [Tick, ListResponse 0, Tick, Tick, ListResponse 1, ListResponse 0]"

definition demo_done :: crawl_state where
  "demo_done =
     \<lparr>files = [file_a, file_b], folders = [], inProgress = [], interval = False,
      results = Some [file_a, file_b], awaiting = [], running = [file_a, file_b],
      listed = [js ''/r'', js ''/r/t'', js ''/r/s''], reported = [file_a, file_b],
      logged = [ListError (js ''/r/t'')]\<rparr>"

text \<open>A callback that is no async function and throws on every file.\<close>

definition throwing_callback :: file_callback where
  "throwing_callback c = Throws"

text \<open>A remote whose every request fails, and one whose documents parse to no body.\<close>

definition failing_remote :: remote where
  "failing_remote =
     \<lparr>list_resp = (\<lambda>p. ListThrew), source_resp = (\<lambda>p. SourceThrew),
      parse = (\<lambda>t. Document None), publish_resp = (\<lambda>p d. PublishThrew)\<rparr>"

definition bodiless_remote :: remote where
  "bodiless_remote =
     \<lparr>list_resp = (\<lambda>p. ListNotOk), source_resp = (\<lambda>p. SourceText []),
      parse = (\<lambda>t. Document None), publish_resp = (\<lambda>p d. PublishResponse True)\<rparr>"

section \<open>Normalising white space\<close>


lemma ws_space: "is_ws 0x20" by (simp add: is_ws_def)

lemma dropWhile_ws_all: "\<forall>x\<in>set w. is_ws x \<Longrightarrow> dropWhile is_ws w = []"
  by simp

lemma replace_ws_all: "\<forall>x\<in>set w. is_ws x \<Longrightarrow> replace_ws w = (if w = [] then [] else [0x20])"
proof (cases w)
  case Nil
  then show ?thesis by simp
next
  case (Cons a list)
  moreover assume "\<forall>x\<in>set w. is_ws x"
  ultimately have a: "is_ws a" and e: "dropWhile is_ws list = []" by auto
  show ?thesis unfolding Cons replace_ws.simps e using a by simp
qed

lemma dropWhile_snoc_nonws: "\<not> is_ws c \<Longrightarrow> dropWhile is_ws (xs @ c # ys) = dropWhile is_ws xs @ c # ys"
  by (simp add: dropWhile_append)

lemma replace_ws_nonws: "\<not> is_ws c \<Longrightarrow> replace_ws (xs @ c # ys) = replace_ws xs @ c # replace_ws ys"
proof (induction xs rule: replace_ws.induct)
  case 1
  then show ?case by simp
next
  case (2 d ds)
  then show ?case by (simp add: dropWhile_snoc_nonws)
qed

lemma trimEnd_all: "\<forall>x\<in>set w. is_ws x \<Longrightarrow> trimEnd w = []"
  by (simp add: trimEnd_def)

lemma trimEnd_split: "\<not> is_ws c \<Longrightarrow> \<forall>x\<in>set w. is_ws x \<Longrightarrow> trimEnd (xs @ c # w) = xs @ [c]"
  by (simp add: trimEnd_def dropWhile_append)

lemma ws_cases:
  obtains (all) "\<forall>x\<in>set s. is_ws x"
  | (split) xs c w where "s = xs @ c # w" "\<not> is_ws c" "\<forall>x\<in>set w. is_ws x"
proof (cases "\<exists>x\<in>set s. \<not> is_ws x")
  case True
  from split_list_last_prop[OF this] show ?thesis using split by auto
next
  case False
  then show ?thesis using all by blast
qed

lemma trimEnd_replace: "trimEnd (replace_ws (trimEnd s)) = trimEnd (replace_ws s)"
proof (cases s rule: ws_cases)
  case all
  then show ?thesis by (simp add: trimEnd_all replace_ws_all ws_space)
next
  case (split xs c w)
  then show ?thesis
    by (simp add: trimEnd_split replace_ws_nonws replace_ws_all ws_space)
qed

lemma dropWhile_trimEnd: "dropWhile is_ws (trimEnd s) = trimEnd (dropWhile is_ws s)"
proof (cases s rule: ws_cases)
  case all
  then have e: "dropWhile is_ws s = []" by simp
  show ?thesis unfolding e using all by (simp add: trimEnd_all)
next
  case (split xs c w)
  then have "dropWhile is_ws (trimEnd s) = dropWhile is_ws xs @ [c]"
    using dropWhile_snoc_nonws[of c xs "[]"] by (simp add: trimEnd_split)
  moreover from split have "trimEnd (dropWhile is_ws s) = dropWhile is_ws xs @ [c]"
    by (simp add: dropWhile_snoc_nonws trimEnd_split)
  ultimately show ?thesis by simp
qed

lemma dropWhile_replace: "dropWhile is_ws (replace_ws (dropWhile is_ws s)) = dropWhile is_ws (replace_ws s)"
  by (cases s) (auto simp: ws_space)

lemma trim_alt: "trim s = trimEnd (dropWhile is_ws s)"
  by (simp add: trim_def trimEnd_def)

lemma trim_replace_trim: "trim (replace_ws (trim s)) = trim (replace_ws s)"
proof -
  have "trim (replace_ws (trim s)) = dropWhile is_ws (trimEnd (replace_ws (trimEnd (dropWhile is_ws s))))"
    by (simp add: trim_alt dropWhile_trimEnd)
  also have "\<dots> = dropWhile is_ws (trimEnd (replace_ws (dropWhile is_ws s)))"
    by (simp add: trimEnd_replace)
  also have "\<dots> = trimEnd (dropWhile is_ws (replace_ws (dropWhile is_ws s)))"
    by (simp add: dropWhile_trimEnd)
  also have "\<dots> = trim (replace_ws s)"
    by (simp add: dropWhile_replace trim_alt)
  finally show ?thesis .
qed

lemma match_alpha3_Cons: "match_alpha3 t \<Longrightarrow> match_alpha3 (p # t)"
  by (cases t rule: match_alpha3.cases) auto

lemma match_alpha3_run: "match_alpha3 s \<Longrightarrow> alpha_run3 s"
proof (induction s rule: match_alpha3.induct)
  case (1 a b c rest)
  show ?case
  proof (cases "is_alpha a \<and> is_alpha b \<and> is_alpha c")
    case True
    have "a # b # c # rest = [] @ [a, b, c] @ rest" by simp
    moreover have "3 \<le> length [a, b, c]" by simp
    moreover from True have "\<forall>x\<in>set [a, b, c]. is_alpha x" by simp
    ultimately show ?thesis unfolding alpha_run3_def by blast
  next
    case False
    with 1 have "alpha_run3 (b # c # rest)" by auto
    then obtain pre mid post where
      "b # c # rest = pre @ mid @ post" "3 \<le> length mid" "\<forall>x\<in>set mid. is_alpha x"
      unfolding alpha_run3_def by blast
    then have "a # b # c # rest = (a # pre) @ mid @ post" by simp
    with \<open>3 \<le> length mid\<close> \<open>\<forall>x\<in>set mid. is_alpha x\<close> show ?thesis
      unfolding alpha_run3_def by blast
  qed
qed (simp_all add: alpha_run3_def)

lemma run_match_alpha3:
  "3 \<le> length mid \<Longrightarrow> \<forall>x\<in>set mid. is_alpha x \<Longrightarrow> match_alpha3 (pre @ mid @ post)"
proof (induction pre)
  case Nil
  then obtain a b c r where "mid = a # b # c # r"
    by (metis One_nat_def Suc_1 Suc_le_length_iff numeral_3_eq_3)
  with Nil show ?case by simp
next
  case (Cons p pre)
  then show ?case by (simp add: match_alpha3_Cons)
qed

lemma match_alpha3_iff: "match_alpha3 s = alpha_run3 s"
  using match_alpha3_run run_match_alpha3 unfolding alpha_run3_def by blast


lemma cleanText_normalise_ws: "cleanText doc = normalise_ws (root_text doc)"
proof (cases "body doc")
  case None
  then show ?thesis
    by (simp add: cleanText_def bodyText_def normalise_ws_def root_text_def trim_def)
next
  case (Some b)
  then show ?thesis
    by (simp add: cleanText_def bodyText_def normalise_ws_def root_text_def trim_replace_trim)
qed

lemma cleanHTML_normalise_ws: "cleanHTML doc = normalise_ws (root_markup doc)"
proof (cases "body doc")
  case None
  then show ?thesis
    by (simp add: cleanHTML_def bodyHTML_def normalise_ws_def root_markup_def trim_def)
next
  case (Some b)
  then show ?thesis
    by (simp add: cleanHTML_def bodyHTML_def normalise_ws_def root_markup_def trim_replace_trim)
qed

lemma only_child_iff:
  "(case cs of [c] \<Rightarrow> trim (textContent c) = [] | _ \<Rightarrow> False) =
   (\<exists>c. cs = [c] \<and> trim (textContent c) = [])"
  by (cases cs rule: remdups_adj.cases) simp_all

lemma isBlankPage_seven: "isBlankPage doc = seven_conditions doc"
  unfolding isBlankPage_def seven_conditions_def cleanText_normalise_ws cleanHTML_normalise_ws
    match_alpha3_iff only_child_iff
  by (cases "body doc") auto

lemmas string_eval = js_def trim_def is_ws_def is_alpha_def

lemma hello_clean:
  "cleanText hello_doc = js ''Hello world''" "cleanHTML hello_doc = js ''<p>Hello world</p>''"
  by (simp_all add: cleanText_def cleanHTML_def bodyText_def bodyHTML_def hello_doc_def string_eval)

lemma digits_clean:
  "cleanText digits_doc = js ''12 34 56 78 90''"
  "cleanHTML digits_doc = js ''<p>12 34 56 78 90 </p>''"
  by (simp_all add: cleanText_def cleanHTML_def bodyText_def bodyHTML_def digits_doc_def
      string_eval)

lemma hello_not_blank: "\<not> isBlankPage hello_doc"
  unfolding isBlankPage_def hello_clean by (simp add: hello_doc_def string_eval)

lemma digits_blank: "isBlankPage digits_doc"
  unfolding isBlankPage_def digits_clean by (simp add: digits_doc_def string_eval)

section \<open>The classifier\<close>

text \<open>
  C4. For every parsed document the verdict is Blank exactly when one of the seven
  conditions of the specification holds, on the text and the inner markup of the root
  element normalised by collapsing runs of white space to one space and trimming the
  ends; it is Substantive otherwise.
\<close>

theorem classify_seven_conditions:
  "(classify doc = Blank) = seven_conditions doc \<and>
   (classify doc = Substantive) = (\<not> seven_conditions doc)"
  by (simp add: classify_def isBlankPage_seven)

theorem classify_seven_conditions_witness:
  "classify hello_doc = Substantive \<and> \<not> seven_conditions hello_doc \<and>
   classify digits_doc = Blank \<and> seven_conditions digits_doc"
  using classify_seven_conditions [of hello_doc] classify_seven_conditions [of digits_doc]
  by (simp add: classify_def hello_not_blank digits_blank)

section \<open>The scheduler\<close>


lemma each_child_files:
  "files (reached (each_child cb s c)) = files s @ (if is_file c then [c] else [])"
  by (simp add: each_child_def reached_def split: option.split invocation.split outcome.split)

lemma each_child_folders:
  "folders (reached (each_child cb s c)) = folders s @ (if is_file c then [] else [path c])"
  by (simp add: each_child_def reached_def split: option.split invocation.split outcome.split)

lemma each_child_reported:
  "reported (reached (each_child cb s c)) =
   reported s @ (if is_file c \<and> cb \<noteq> None then [c] else [])"
  by (simp add: each_child_def reached_def split: option.split invocation.split outcome.split)

lemma each_child_same:
  "inProgress (reached (each_child cb s c)) = inProgress s"
  "interval (reached (each_child cb s c)) = interval s"
  "results (reached (each_child cb s c)) = results s"
  "awaiting (reached (each_child cb s c)) = awaiting s"
  "listed (reached (each_child cb s c)) = listed s"
  by (simp_all add: each_child_def reached_def
      split: option.split invocation.split outcome.split)

lemma each_child_running:
  "length (running (reached (each_child cb s c)))
   \<le> length (running s) + (if is_file c then 1 else 0)"
  by (simp add: each_child_def reached_def split: option.split invocation.split outcome.split)

lemma each_child_isl: "isl (each_child cb s c) = throws_on cb c"
  by (simp add: each_child_def throws_on_def
      split: option.split invocation.split outcome.split)

lemma forEach_Cons:
  "reached (forEach cb s (c # cs)) =
     (if throws_on cb c then reached (each_child cb s c)
      else reached (forEach cb (reached (each_child cb s c)) cs))"
  using each_child_isl[of cb s c]
  by (cases "each_child cb s c") (simp_all add: reached_def)

lemma forEach_isl_Cons:
  "isl (forEach cb s (c # cs)) =
     (throws_on cb c \<or> isl (forEach cb (reached (each_child cb s c)) cs))"
  using each_child_isl[of cb s c]
  by (cases "each_child cb s c") (simp_all add: reached_def)

lemma forEach_files:
  "files (reached (forEach cb s cs)) = files s @ filter is_file (handled cb cs)"
proof (induction cs arbitrary: s)
  case Nil
  then show ?case by (simp add: reached_def)
next
  case (Cons c cs)
  then show ?case by (simp add: forEach_Cons each_child_files del: forEach.simps(2))
qed

lemma forEach_folders:
  "folders (reached (forEach cb s cs)) = folders s @ subfolders (handled cb cs)"
proof (induction cs arbitrary: s)
  case Nil
  then show ?case by (simp add: reached_def subfolders_def)
next
  case (Cons c cs)
  then show ?case by (simp add: forEach_Cons each_child_folders subfolders_def del: forEach.simps(2))
qed

lemma forEach_reported_None: "reported (reached (forEach None s cs)) = reported s"
proof (induction cs arbitrary: s)
  case Nil
  then show ?case by (simp add: reached_def)
next
  case (Cons c cs)
  then show ?case
    by (simp add: forEach_Cons each_child_reported throws_on_def del: forEach.simps(2))
qed

lemma forEach_reported_Some:
  "reported (reached (forEach (Some f) s cs)) =
   reported s @ filter is_file (handled (Some f) cs)"
proof (induction cs arbitrary: s)
  case Nil
  then show ?case by (simp add: reached_def)
next
  case (Cons c cs)
  then show ?case by (simp add: forEach_Cons each_child_reported del: forEach.simps(2))
qed

lemma forEach_reported:
  "reported (reached (forEach cb s cs)) =
   reported s @ (if cb = None then [] else filter is_file (handled cb cs))"
  by (cases cb) (simp_all add: forEach_reported_None forEach_reported_Some)

lemma forEach_same:
  "inProgress (reached (forEach cb s cs)) = inProgress s"
  "interval (reached (forEach cb s cs)) = interval s"
  "results (reached (forEach cb s cs)) = results s"
  "awaiting (reached (forEach cb s cs)) = awaiting s"
  "listed (reached (forEach cb s cs)) = listed s"
  by (induction cs arbitrary: s)
    (simp_all add: forEach_Cons each_child_same reached_def[of "Inr _"] del: forEach.simps(2))

lemma forEach_running:
  "length (running (reached (forEach cb s cs)))
   \<le> length (running s) + length (filter is_file (handled cb cs))"
proof (induction cs arbitrary: s)
  case Nil
  then show ?case by (simp add: reached_def)
next
  case (Cons c cs)
  show ?case
  proof (cases "throws_on cb c")
    case True
    then show ?thesis
      using each_child_running[of cb s c]
        by (simp add: forEach_Cons throws_on_def del: forEach.simps(2))
  next
    case False
    have "length (running (reached (forEach cb (reached (each_child cb s c)) cs)))
          \<le> length (running (reached (each_child cb s c))) +
            length (filter is_file (handled cb cs))"
      by (rule Cons.IH)
    also have "\<dots> \<le> length (running s) + (if is_file c then 1 else 0) +
        length (filter is_file (handled cb cs))"
      using each_child_running[of cb s c] by simp
    finally show ?thesis using False
      by (simp add: forEach_Cons del: forEach.simps(2) split: if_splits)
  qed
qed

lemma handled_async: "async_callback cb \<Longrightarrow> handled cb cs = cs"
  by (induction cs) (auto simp: async_callback_def throws_on_def split: option.splits)

lemma handled_prefix: "\<exists>rest. cs = handled cb cs @ rest"
  by (induction cs) auto

lemma handled_less:
  "length (filter is_file (handled cb cs)) \<le> length (filter is_file cs)"
  "sum_list (map g (subfolders (handled cb cs))) \<le> (sum_list (map g (subfolders cs)) :: nat)"
  "set (subfolders (handled cb cs)) \<subseteq> set (subfolders cs)"
proof -
  obtain rest where r: "cs = handled cb cs @ rest" using handled_prefix by blast
  have "length (filter is_file (handled cb cs @ rest)) \<ge> length (filter is_file (handled cb cs))"
    by simp
  then show "length (filter is_file (handled cb cs)) \<le> length (filter is_file cs)"
    using r by simp
  have "sum_list (map g (subfolders (handled cb cs))) \<le>
      (sum_list (map g (subfolders (handled cb cs @ rest))) :: nat)"
    by (simp add: subfolders_def)
  then show "sum_list (map g (subfolders (handled cb cs))) \<le>
      (sum_list (map g (subfolders cs)) :: nat)"
    using r by simp
  have "set (subfolders (handled cb cs)) \<subseteq> set (subfolders (handled cb cs @ rest))"
    by (simp add: subfolders_def)
  then show "set (subfolders (handled cb cs)) \<subseteq> set (subfolders cs)"
    using r by simp
qed

lemma check_done_fields:
  "files (check_done s) = files s"
  "folders (check_done s) = folders s"
  "inProgress (check_done s) = inProgress s"
  "awaiting (check_done s) = awaiting s"
  "running (check_done s) = running s"
  "listed (check_done s) = listed s"
  "reported (check_done s) = reported s"
  "logged (check_done s) = logged s"
  by (simp_all add: check_done_def)

lemma check_done_results:
  "results (check_done s) =
     (if inProgress s = [] \<and> folders s = []
      then (case results s of None \<Rightarrow> Some (files s) | Some fs \<Rightarrow> Some fs)
      else results s)"
  "interval (check_done s) = (if inProgress s = [] \<and> folders s = [] then False else interval s)"
  by (simp_all add: check_done_def)

lemma sched_inv_crawl: "sched_inv (crawl p c)"
  by (simp add: sched_inv_def crawl_def)

lemma sched_inv_tick: "sched_inv s \<Longrightarrow> tick s = Some s' \<Longrightarrow> sched_inv s'"
  by (auto simp: sched_inv_def tick_def check_done_def split: if_splits)

lemma expand_reached:
  "expand env cb p s =
     (if list_resp env p = ListThrew \<or> isl (forEach cb s (listing env p))
      then (reached (forEach cb s (listing env p)))
             \<lparr>logged := logged (reached (forEach cb s (listing env p))) @ [ListError p]\<rparr>
      else reached (forEach cb s (listing env p)))"
proof (cases "list_resp env p")
  case (ListJson json)
  then show ?thesis
    by (cases "forEach cb s json") (simp_all add: expand_def listing_def reached_def)
qed (simp_all add: expand_def listing_def reached_def)

lemma expand_files:
  "files (expand env cb p s) = files s @ filter is_file (handled cb (listing env p))"
  by (simp add: expand_reached forEach_files)

lemma expand_folders:
  "folders (expand env cb p s) = folders s @ subfolders (handled cb (listing env p))"
  by (simp add: expand_reached forEach_folders)

lemma expand_reported:
  "reported (expand env cb p s) =
   reported s @ (if cb = None then [] else filter is_file (handled cb (listing env p)))"
  by (simp add: expand_reached forEach_reported)

lemma expand_same:
  "inProgress (expand env cb p s) = inProgress s"
  "interval (expand env cb p s) = interval s"
  "results (expand env cb p s) = results s"
  "awaiting (expand env cb p s) = awaiting s"
  "listed (expand env cb p s) = listed s"
  by (simp_all add: expand_reached forEach_same)

lemma expand_running:
  "length (running (expand env cb p s))
   \<le> length (running s) + length (filter is_file (handled cb (listing env p)))"
  using forEach_running[of cb s "listing env p"] by (simp add: expand_reached)

lemma butlast_Nil_conv: "(butlast xs = []) = (length xs \<le> 1)"
  by (cases xs) auto

lemma list_response_fields:
  assumes "list_response env cb i s = Some s'"
  shows "i < length (awaiting s)"
    and "files s' = files s @ filter is_file (handled cb (listing env (awaiting s ! i)))"
    and "folders s' = folders s @ subfolders (handled cb (listing env (awaiting s ! i)))"
    and "inProgress s' = butlast (inProgress s)"
    and "awaiting s' = take i (awaiting s) @ drop (Suc i) (awaiting s)"
    and "listed s' = listed s"
    and "reported s' =
         reported s @ (if cb = None then [] else filter is_file (handled cb (listing env (awaiting s ! i))))"
    and "length (running s')
         \<le> length (running s) + length (filter is_file (handled cb (listing env (awaiting s ! i))))"
proof -
  show i: "i < length (awaiting s)"
    using assms by (simp add: list_response_def split: if_splits)
  define t where "t = expand env cb (awaiting s ! i)
      (s\<lparr>awaiting := take i (awaiting s) @ drop (Suc i) (awaiting s)\<rparr>)"
  have s': "s' = check_done (t\<lparr>inProgress := butlast (inProgress t)\<rparr>)"
    using assms i by (simp add: list_response_def t_def Let_def)
  show "files s' = files s @ filter is_file (handled cb (listing env (awaiting s ! i)))"
    by (simp add: s' check_done_def t_def expand_files)
  show "folders s' = folders s @ subfolders (handled cb (listing env (awaiting s ! i)))"
    by (simp add: s' check_done_def t_def expand_folders)
  show "inProgress s' = butlast (inProgress s)"
    by (simp add: s' check_done_def t_def expand_same)
  show "awaiting s' = take i (awaiting s) @ drop (Suc i) (awaiting s)"
    by (simp add: s' check_done_def t_def expand_same)
  show "listed s' = listed s"
    by (simp add: s' check_done_def t_def expand_same)
  show "reported s' =
         reported s @ (if cb = None then [] else filter is_file (handled cb (listing env (awaiting s ! i))))"
    by (simp add: s' check_done_def t_def expand_reported)
  show "length (running s')
         \<le> length (running s) + length (filter is_file (handled cb (listing env (awaiting s ! i))))"
    using expand_running[of env cb "awaiting s ! i"
        "s\<lparr>awaiting := take i (awaiting s) @ drop (Suc i) (awaiting s)\<rparr>"]
    by (simp add: s' check_done_def t_def)
qed

lemma list_response_results:
  assumes "list_response env cb i s = Some s'"
  shows "results s' =
         (if inProgress s' = [] \<and> folders s' = []
          then (case results s of None \<Rightarrow> Some (files s') | Some fs \<Rightarrow> Some fs)
          else results s)"
    and "interval s' = (if inProgress s' = [] \<and> folders s' = [] then False else interval s)"
proof -
  have i: "i < length (awaiting s)"
    using assms by (simp add: list_response_def split: if_splits)
  define t where "t = expand env cb (awaiting s ! i)
      (s\<lparr>awaiting := take i (awaiting s) @ drop (Suc i) (awaiting s)\<rparr>)"
  define u where "u = t\<lparr>inProgress := butlast (inProgress t)\<rparr>"
  have s': "s' = check_done u"
    using assms i by (simp add: list_response_def t_def u_def Let_def)
  have same: "inProgress s' = inProgress u" "folders s' = folders u" "files s' = files u"
    by (simp_all add: s' check_done_fields)
  have u: "results u = results s" "interval u = interval s"
    by (simp_all add: u_def t_def expand_same)
  show "results s' =
         (if inProgress s' = [] \<and> folders s' = []
          then (case results s of None \<Rightarrow> Some (files s') | Some fs \<Rightarrow> Some fs)
          else results s)"
    unfolding same unfolding s' check_done_results u by simp
  show "interval s' = (if inProgress s' = [] \<and> folders s' = [] then False else interval s)"
    unfolding same unfolding s' check_done_results u by simp
qed

lemma sched_inv_list_response:
  assumes "sched_inv s" "list_response env cb i s = Some s'"
  shows "sched_inv s'"
proof -
  note f = list_response_fields[OF assms(2)] list_response_results[OF assms(2)]
  from assms(1) f(1) have res: "results s = None" "interval s" "inProgress s \<noteq> []"
    and len: "length (inProgress s) = length (awaiting s)"
    by (auto simp: sched_inv_def)
  have "length (inProgress s') = length (awaiting s')"
    using f(1) len by (simp add: f(4,5))
  moreover have "(results s' \<noteq> None) = (folders s' = [] \<and> inProgress s' = [])"
    unfolding f(9) res by auto
  moreover have "interval s' = (results s' = None)"
    by (simp add: f(9,10) res)
  moreover have "results s' = None \<or> results s' = Some (files s')"
    by (simp add: f(9) res)
  ultimately show ?thesis by (simp add: sched_inv_def)
qed

lemma sched_inv_callback_settled:
  "sched_inv s \<Longrightarrow> callback_settled cb i s = Some s' \<Longrightarrow> sched_inv s'"
  by (auto simp: sched_inv_def callback_settled_def Let_def
      split: option.splits if_splits invocation.splits outcome.splits)

lemma sched_inv_fire: "sched_inv s \<Longrightarrow> fire env cb e s = Some s' \<Longrightarrow> sched_inv s'"
  by (cases e) (auto intro: sched_inv_tick sched_inv_list_response sched_inv_callback_settled)

lemma sched_inv_run: "sched_inv s \<Longrightarrow> run env cb es s = Some s' \<Longrightarrow> sched_inv s'"
proof (induction es arbitrary: s)
  case Nil
  then show ?case by simp
next
  case (Cons e es)
  then show ?case by (auto split: option.splits dest: sched_inv_fire)
qed

lemmas run_eval = tick_def list_response_def expand_def each_child_def check_done_def
  callback_settled_def crawl_def main_callback_def is_file_def endsWith_def Let_def

lemmas demo_eval = demo_remote_def file_a_def file_b_def folder_s_def folder_t_def js_def

lemma demo_run:
  "run demo_remote (Some (main_callback demo_remote)) demo_events (crawl (js ''/r'') 50) =
   Some demo_done"
  by (simp add: demo_events_def demo_done_def run_eval demo_eval)

text \<open>
  C2. In every state a run of \<open>crawl\<close> reaches, the results promise is resolved exactly
  when the frontier is empty and no expansion is in flight; the in-flight count is the
  number of unanswered list requests, and the value resolved with is the list of files.
\<close>

theorem resolves_iff_exhausted:
  assumes "run env cb es (crawl p c) = Some s"
  shows "(results s \<noteq> None) = (folders s = [] \<and> length (inProgress s) = 0) \<and>
         length (inProgress s) = length (awaiting s) \<and>
         (results s = None \<or> results s = Some (files s))"
proof -
  have "sched_inv s" by (rule sched_inv_run[OF sched_inv_crawl assms])
  then show ?thesis unfolding sched_inv_def by (metis length_0_conv)
qed

theorem resolves_iff_exhausted_witness:
  "run demo_remote (Some (main_callback demo_remote)) demo_events (crawl (js ''/r'') 50) =
     Some demo_done \<and>
   results demo_done \<noteq> None \<and> folders demo_done = [] \<and>
   length (inProgress demo_done) = 0 \<and> length (awaiting demo_done) = 0 \<and>
   results demo_done = Some (files demo_done)"
  using resolves_iff_exhausted [OF demo_run] demo_run by (simp add: demo_done_def)

section \<open>The per-file unit of work\<close>


text \<open>
  C5. For a file the callback fetches and parses: when the document is Substantive the
  callback sends exactly one publish request, to the URL the document was fetched from,
  carrying the outer markup of the root element; when it is Blank it sends none.
\<close>

theorem publish_once_if_substantive:
  assumes "endsWith (path item) (js ''.html'')"
    and "source_resp env (path item) = SourceText text"
  shows "(classify (parse env text) = Substantive \<longrightarrow>
            (\<exists>b. body (parse env text) = Some b \<and>
               fst (callback env item) =
                 [GET (source_url (path item)), POST (source_url (path item)) (outerHTML b)] \<and>
               publishes env item = [POST (source_url (path item)) (outerHTML b)])) \<and>
         (classify (parse env text) = Blank \<longrightarrow> publishes env item = [])"
proof (cases "isBlankPage (parse env text)")
  case True
  with assms show ?thesis by (simp add: classify_def publishes_def callback_def)
next
  case False
  then obtain b where b: "body (parse env text) = Some b"
    by (cases "body (parse env text)")
      (auto simp: isBlankPage_def cleanText_def bodyText_def trim_def)
  with False assms show ?thesis by (simp add: classify_def publishes_def callback_def)
qed

theorem publish_once_if_substantive_witness:
  "endsWith (path file_a) (js ''.html'') \<and>
   source_resp demo_remote (path file_a) = SourceText (js ''A'') \<and>
   classify (parse demo_remote (js ''A'')) = Substantive \<and>
   publishes demo_remote file_a =
     [POST (source_url (path file_a)) (js ''<body><p>Hello world</p></body>'')] \<and>
   endsWith (path file_b) (js ''.html'') \<and>
   source_resp demo_remote (path file_b) = SourceText (js ''B'') \<and>
   classify (parse demo_remote (js ''B'')) = Blank \<and>
   publishes demo_remote file_b = []"
proof -
  have a: "endsWith (path file_a) (js ''.html'')"
    and a': "source_resp demo_remote (path file_a) = SourceText (js ''A'')"
    and b: "endsWith (path file_b) (js ''.html'')"
    and b': "source_resp demo_remote (path file_b) = SourceText (js ''B'')"
    by (simp_all add: demo_remote_def file_a_def file_b_def endsWith_def js_def)
  have pa: "parse demo_remote (js ''A'') = hello_doc"
    and pb: "parse demo_remote (js ''B'') = digits_doc"
    by (simp_all add: demo_remote_def js_def)
  have ca: "classify hello_doc = Substantive" and cb: "classify digits_doc = Blank"
    by (simp_all add: classify_def hello_not_blank digits_blank)
  have "\<exists>e. body hello_doc = Some e \<and>
          publishes demo_remote file_a = [POST (source_url (path file_a)) (outerHTML e)]"
    using publish_once_if_substantive [OF a a'] by (auto simp: pa ca)
  then have "publishes demo_remote file_a =
      [POST (source_url (path file_a)) (js ''<body><p>Hello world</p></body>'')]"
    by (auto simp: hello_doc_def)
  moreover have "publishes demo_remote file_b = []"
    using publish_once_if_substantive [OF b b'] by (simp add: pb cb)
  ultimately show ?thesis
    using a a' b b' by (simp add: pa pb ca cb)
qed

text \<open>
  C10. For a fetched document whose parse has no root element, text and inner markup are
  read as empty strings, the document is Blank, the callback finishes without failing and
  sends no publish request.
\<close>

theorem no_body_is_blank:
  assumes "endsWith (path item) (js ''.html'')"
    and "source_resp env (path item) = SourceText text"
    and "body (parse env text) = None"
  shows "bodyText (parse env text) = [] \<and> bodyHTML (parse env text) = [] \<and>
         isBlankPage (parse env text) \<and> classify (parse env text) = Blank \<and>
         callback env item = ([GET (source_url (path item))], Fulfilled) \<and>
         publishes env item = []"
proof -
  from assms(3) have t: "bodyText (parse env text) = []" "bodyHTML (parse env text) = []"
    by (simp_all add: bodyText_def bodyHTML_def)
  then have blank: "isBlankPage (parse env text)"
    by (simp add: isBlankPage_def cleanText_def trim_def)
  with assms t show ?thesis by (simp add: classify_def publishes_def callback_def)
qed

theorem no_body_is_blank_witness:
  "endsWith (path file_a) (js ''.html'') \<and>
   source_resp bodiless_remote (path file_a) = SourceText [] \<and>
   body (parse bodiless_remote []) = None \<and>
   classify (parse bodiless_remote []) = Blank \<and>
   publishes bodiless_remote file_a = []"
proof -
  have a: "endsWith (path file_a) (js ''.html'')"
    by (simp add: file_a_def endsWith_def js_def)
  have s: "source_resp bodiless_remote (path file_a) = SourceText []"
    and p: "body (parse bodiless_remote []) = None"
    by (simp_all add: bodiless_remote_def)
  from no_body_is_blank [OF a s p] a s p show ?thesis by simp
qed

section \<open>The crawl visits the remote tree\<close>


lemma over_simps:
  "over f [] = {#}"
  "over f (p # ps) = mset (f p) + over f ps"
  "over f (ps @ qs) = over f ps + over f qs"
  by (simp_all add: over_def)

lemma over_remove_nth:
  "i < length ps \<Longrightarrow> over f ps = mset (f (ps ! i)) + over f (take i ps @ drop (Suc i) ps)"
proof -
  assume "i < length ps"
  then have "ps = take i ps @ ps ! i # drop (Suc i) ps" by (rule id_take_nth_drop)
  then have "over f ps = over f (take i ps @ ps ! i # drop (Suc i) ps)" by simp
  then show ?thesis by (simp add: over_simps)
qed

lemma over_butlast:
  "ps \<noteq> [] \<Longrightarrow> over f ps = over f (butlast ps) + mset (f (last ps))"
proof -
  assume "ps \<noteq> []"
  then have "ps = butlast ps @ [last ps]" by simp
  then have "over f ps = over f (butlast ps @ [last ps])" by simp
  then show ?thesis by (simp add: over_simps)
qed

lemma finite_tree_stable:
  "finite_tree env k p \<Longrightarrow>
     finite_tree env (Suc k) p \<and> tree_files env (Suc k) p = tree_files env k p \<and>
     tree_folders env (Suc k) p = tree_folders env k p"
proof (induction k arbitrary: p)
  case 0
  then show ?case by simp
next
  case (Suc k)
  show ?case
  proof (cases "list_resp env p")
    case (ListJson json)
    with Suc.prems have all: "\<forall>q\<in>set (subfolders json). finite_tree env k q"
      by (simp add: list_all_iff)
    with Suc.IH have
      "\<forall>q\<in>set (subfolders json). finite_tree env (Suc k) q \<and>
          tree_files env (Suc k) q = tree_files env k q \<and>
          tree_folders env (Suc k) q = tree_folders env k q"
      by blast
    then have fin: "list_all (finite_tree env (Suc k)) (subfolders json)"
      and m1: "map (tree_files env (Suc k)) (subfolders json) =
               map (tree_files env k) (subfolders json)"
      and m2: "map (tree_folders env (Suc k)) (subfolders json) =
               map (tree_folders env k) (subfolders json)"
      by (simp_all add: list_all_iff)
    show ?thesis using fin by (simp add: ListJson m1 m2)
  qed simp_all
qed

lemma finite_tree_mono:
  "finite_tree env k p \<Longrightarrow> k \<le> m \<Longrightarrow>
     finite_tree env m p \<and> tree_files env m p = tree_files env k p \<and>
     tree_folders env m p = tree_folders env k p"
proof (induction m)
  case 0
  then show ?case by simp
next
  case (Suc m)
  show ?case
  proof (cases "k = Suc m")
    case True
    with Suc.prems show ?thesis by simp
  next
    case False
    with Suc have "finite_tree env m p \<and> tree_files env m p = tree_files env k p \<and>
       tree_folders env m p = tree_folders env k p" by simp
    with finite_tree_stable[of env m p] show ?thesis by simp
  qed
qed

lemma finite_tree_unfold:
  assumes "finite_tree env n p"
  shows "list_all (finite_tree env n) (subfolders (listing env p))"
    and "tree_files env n p =
           filter is_file (listing env p) @
           concat (map (tree_files env n) (subfolders (listing env p)))"
    and "tree_folders env n p =
           p # concat (map (tree_folders env n) (subfolders (listing env p)))"
proof -
  from assms obtain k where n: "n = Suc k" by (cases n) auto
  have sub: "\<forall>q\<in>set (subfolders (listing env p)). finite_tree env k q"
    using assms unfolding n listing_def
    by (cases "list_resp env p") (simp_all add: list_all_iff subfolders_def)
  then have st: "\<forall>q\<in>set (subfolders (listing env p)).
      finite_tree env n q \<and> tree_files env n q = tree_files env k q \<and>
      tree_folders env n q = tree_folders env k q"
    unfolding n using finite_tree_stable by blast
  then show "list_all (finite_tree env n) (subfolders (listing env p))"
    by (simp add: list_all_iff)
  from st have m: "map (tree_files env n) (subfolders (listing env p)) =
      map (tree_files env k) (subfolders (listing env p))"
    "map (tree_folders env n) (subfolders (listing env p)) =
      map (tree_folders env k) (subfolders (listing env p))"
    by simp_all
  show "tree_files env n p =
           filter is_file (listing env p) @
           concat (map (tree_files env n) (subfolders (listing env p)))"
    unfolding m unfolding n listing_def
    by (cases "list_resp env p") (simp_all add: subfolders_def)
  show "tree_folders env n p =
           p # concat (map (tree_folders env n) (subfolders (listing env p)))"
    unfolding m unfolding n listing_def
    by (cases "list_resp env p") (simp_all add: subfolders_def)
qed


lemma tick_fields:
  assumes "tick s = Some s'"
  shows "files s' = files s" and "reported s' = reported s" and "running s' = running s"
    and "folders s \<noteq> [] \<Longrightarrow> folders s' = butlast (folders s)"
    and "folders s \<noteq> [] \<Longrightarrow> awaiting s' = awaiting s @ [last (folders s)]"
    and "folders s \<noteq> [] \<Longrightarrow> listed s' = listed s @ [last (folders s)]"
    and "folders s = [] \<Longrightarrow> folders s' = [] \<and> awaiting s' = awaiting s \<and> listed s' = listed s"
  using assms by (auto simp: tick_def check_done_def split: if_splits)

lemma callback_settled_fields:
  assumes "callback_settled cb i s = Some s'"
  shows "files s' = files s" and "folders s' = folders s" and "awaiting s' = awaiting s"
    and "listed s' = listed s" and "reported s' = reported s"
    and "inProgress s' = inProgress s" and "results s' = results s"
    and "interval s' = interval s"
    and "i < length (running s)"
    and "running s' = take i (running s) @ drop (Suc i) (running s)"
  using assms
  by (auto simp: callback_settled_def Let_def
      split: option.splits if_splits invocation.splits outcome.splits)

lemma tree_inv_crawl: "finite_tree env n root \<Longrightarrow> tree_inv env n root cb (crawl root c)"
  by (simp add: tree_inv_def crawl_def over_simps split: option.split)

lemma tree_inv_tick:
  assumes "tree_inv env n root cb s" "tick s = Some s'"
  shows "tree_inv env n root cb s'"
proof (cases "folders s = []")
  case True
  with tick_fields[OF assms(2)] assms(1) show ?thesis
    by (simp add: tree_inv_def split: option.splits)
next
  case False
  note f = tick_fields(1,2)[OF assms(2)] tick_fields(4,5,6)[OF assms(2) False]
  have fa: "list_all (finite_tree env n) (folders s' @ awaiting s')"
    using assms(1) False unfolding tree_inv_def f list_all_iff
    by (auto dest: in_set_butlastD)
  have o1: "over (tree_files env n) (folders s' @ awaiting s') =
      over (tree_files env n) (folders s @ awaiting s)"
    unfolding f using over_butlast[OF False, of "tree_files env n"] by (simp add: over_simps)
  have o2: "over (tree_folders env n) (folders s' @ awaiting s') =
      over (tree_folders env n) (folders s @ awaiting s)"
    unfolding f using over_butlast[OF False, of "tree_folders env n"] by (simp add: over_simps)
  show ?thesis
    using assms(1) fa unfolding tree_inv_def o1 o2
    by (simp add: f split: option.splits)
qed

lemma tree_inv_list_response:
  assumes "tree_inv env n root cb s" "list_response env cb i s = Some s'"
    and "async_callback cb"
  shows "tree_inv env n root cb s'"
proof -
  note f = list_response_fields[OF assms(2), unfolded handled_async[OF assms(3)]]
  define p where "p = awaiting s ! i"
  define rest where "rest = take i (awaiting s) @ drop (Suc i) (awaiting s)"
  have p: "p \<in> set (awaiting s)" using f(1) by (simp add: p_def)
  have fin: "finite_tree env n p"
    using assms(1) p by (simp add: tree_inv_def list_all_iff)
  note u = finite_tree_unfold[OF fin]
  have rest: "set rest \<subseteq> set (awaiting s)"
    unfolding rest_def by (auto dest: in_set_takeD in_set_dropD)
  have fa: "list_all (finite_tree env n) (folders s' @ awaiting s')"
    using assms(1) u(1) rest unfolding tree_inv_def f(3,5) list_all_iff
    by (auto simp: p_def rest_def)
  have aw: "mset (awaiting s) = add_mset p (mset rest)"
    using f(1) id_take_nth_drop[of i "awaiting s"] unfolding p_def rest_def
    by (metis mset.simps(2) mset_append union_mset_add_mset_right)
  have of: "over (tree_files env n) (awaiting s) =
      mset (filter is_file (listing env p)) +
      over (tree_files env n) (subfolders (listing env p)) + over (tree_files env n) rest"
    using over_remove_nth[OF f(1), of "tree_files env n"] u(2)
    by (simp add: p_def rest_def over_def)
  have od: "over (tree_folders env n) (awaiting s) =
      add_mset p (over (tree_folders env n) (subfolders (listing env p)) +
      over (tree_folders env n) rest)"
    using over_remove_nth[OF f(1), of "tree_folders env n"] u(3)
    by (simp add: p_def rest_def over_def)
  have files: "mset (files s') + over (tree_files env n) (folders s' @ awaiting s') =
      mset (tree_files env n root)"
    using assms(1) unfolding tree_inv_def f(2,3,5)
    by (simp add: over_simps of p_def[symmetric] rest_def[symmetric] ac_simps)
  have dirs: "mset (listed s') + over (tree_folders env n) (folders s' @ awaiting s') =
      mset (tree_folders env n root) + mset (awaiting s')"
    using assms(1) unfolding tree_inv_def f(3,5,6)
    by (simp add: over_simps od aw p_def[symmetric] rest_def[symmetric] ac_simps)
  have rep: "reported s' = (case cb of None \<Rightarrow> [] | Some g \<Rightarrow> files s')"
    using assms(1) unfolding tree_inv_def f(2,7) by (simp split: option.splits)
  from fa files dirs rep show ?thesis by (simp add: tree_inv_def)
qed

lemma tree_inv_callback_settled:
  assumes "tree_inv env n root cb s" "callback_settled cb i s = Some s'"
  shows "tree_inv env n root cb s'"
  using assms(1) callback_settled_fields(1-5)[OF assms(2)]
  by (simp add: tree_inv_def split: option.splits)

lemma tree_inv_fire:
  "async_callback cb \<Longrightarrow> tree_inv env n root cb s \<Longrightarrow> fire env cb e s = Some s' \<Longrightarrow>
     tree_inv env n root cb s'"
  by (cases e) (auto intro: tree_inv_tick tree_inv_list_response tree_inv_callback_settled)

lemma tree_inv_run:
  "async_callback cb \<Longrightarrow> tree_inv env n root cb s \<Longrightarrow> run env cb es s = Some s' \<Longrightarrow>
     tree_inv env n root cb s'"
proof (induction es arbitrary: s)
  case Nil
  then show ?case by simp
next
  case (Cons e es)
  then show ?case by (auto split: option.splits dest: tree_inv_fire)
qed

text \<open>
  C3. On a remote tree (listing from the root ends within \<open>n\<close> levels), the callback
  being an async function or absent, the files the crawl resolves with are exactly the files the listing reaches, each as often as the
  listing reaches it; the list requests sent are exactly the folders it reaches, each as
  often; a callback, when one is given, was called on exactly the files recorded, in the
  same order. Where the tree names every file and folder once, no file is recorded twice
  and no folder is expanded twice.
\<close>

theorem crawl_result_is_tree:
  assumes "finite_tree env n root"
    and "async_callback cb"
    and "run env cb es (crawl root c) = Some s"
    and "results s = Some fs"
  shows "mset fs = mset (tree_files env n root) \<and>
         set (map path fs) = set (map path (tree_files env n root)) \<and>
         mset (listed s) = mset (tree_folders env n root) \<and>
         reported s = (case cb of None \<Rightarrow> [] | Some f \<Rightarrow> fs) \<and>
         (distinct (tree_files env n root) \<longrightarrow> distinct fs) \<and>
         (distinct (tree_folders env n root) \<longrightarrow> distinct (listed s))"
proof -
  have si: "sched_inv s" by (rule sched_inv_run[OF sched_inv_crawl assms(3)])
  have ti: "tree_inv env n root cb s"
    by (rule tree_inv_run[OF assms(2) tree_inv_crawl[OF assms(1)] assms(3)])
  from si assms(4) have e: "folders s = []" "awaiting s = []" "fs = files s"
    by (auto simp: sched_inv_def)
  from ti have m: "mset fs = mset (tree_files env n root)"
    and d: "mset (listed s) = mset (tree_folders env n root)"
    and r: "reported s = (case cb of None \<Rightarrow> [] | Some f \<Rightarrow> fs)"
    by (simp_all add: tree_inv_def e over_simps split: option.splits)
  from m have "set fs = set (tree_files env n root)" by (rule mset_eq_setD)
  then have "set (map path fs) = set (map path (tree_files env n root))" by simp
  moreover from m have "distinct (tree_files env n root) \<longrightarrow> distinct fs"
    using mset_eq_imp_distinct_iff by blast
  moreover from d have "distinct (tree_folders env n root) \<longrightarrow> distinct (listed s)"
    using mset_eq_imp_distinct_iff by blast
  ultimately show ?thesis using m d r by simp
qed

lemma demo_tree:
  "finite_tree demo_remote 2 (js ''/r'')"
  "tree_files demo_remote 2 (js ''/r'') = [file_a, file_b]"
  "tree_folders demo_remote 2 (js ''/r'') = [js ''/r'', js ''/r/s'', js ''/r/t'']"
  by (simp_all add: numeral_2_eq_2 subfolders_def is_file_def demo_eval)

lemma demo_distinct:
  "distinct [file_a, file_b]" "distinct [js ''/r'', js ''/r/s'', js ''/r/t'']"
  by (simp_all add: demo_eval)

lemma main_callback_async: "async_callback (Some (main_callback env))"
  by (simp add: async_callback_def main_callback_def)

theorem crawl_result_is_tree_witness:
  "finite_tree demo_remote 2 (js ''/r'') \<and>
   async_callback (Some (main_callback demo_remote)) \<and>
   run demo_remote (Some (main_callback demo_remote)) demo_events (crawl (js ''/r'') 50) =
     Some demo_done \<and>
   results demo_done = Some [file_a, file_b] \<and>
   tree_files demo_remote 2 (js ''/r'') = [file_a, file_b] \<and>
   mset (listed demo_done) = mset (tree_folders demo_remote 2 (js ''/r'')) \<and>
   reported demo_done = [file_a, file_b] \<and>
   distinct (tree_files demo_remote 2 (js ''/r'')) \<and>
   distinct (tree_folders demo_remote 2 (js ''/r'')) \<and>
   distinct (listed demo_done)"
proof -
  have r: "results demo_done = Some [file_a, file_b]" by (simp add: demo_done_def)
  from crawl_result_is_tree [OF demo_tree(1) main_callback_async demo_run r]
  show ?thesis using demo_run r demo_distinct main_callback_async by (simp add: demo_tree)
qed

section \<open>Failures reach only the console\<close>

lemma unlogged_eqD: "unlogged s = unlogged t \<Longrightarrow> t = s\<lparr>logged := logged t\<rparr>"
proof -
  assume "unlogged s = unlogged t"
  then have "(unlogged s)\<lparr>logged := logged t\<rparr> = (unlogged t)\<lparr>logged := logged t\<rparr>"
    by simp
  then show ?thesis by (simp add: unlogged_def)
qed

lemma unlogged_update: "unlogged (s\<lparr>logged := l\<rparr>) = unlogged s"
  by (simp add: unlogged_def)

lemma same_shape_throws: "same_shape cb cb' \<Longrightarrow> throws_on cb' c = throws_on cb c"
  by (auto simp: same_shape_def throws_on_def split: option.splits)

lemma each_child_form:
  "unlogged (reached (each_child cb s c)) =
   unlogged (if is_file c
             then s\<lparr>files := files s @ [c],
                    reported := reported s @ (if cb = None then [] else [c]),
                    running := running s @ (if defers cb c then [c] else [])\<rparr>
             else s\<lparr>folders := folders s @ [path c]\<rparr>)"
  by (simp add: each_child_def reached_def unlogged_def defers_def
      split: option.split invocation.split outcome.split)

lemma same_shape_defers:
  "same_shape cb cb' \<Longrightarrow> defers cb' c = defers cb c \<and> (cb' = None) = (cb = None)"
  by (auto simp: same_shape_def defers_def split: option.splits)

lemma each_child_relog:
  assumes "same_shape cb cb'"
  shows "unlogged (reached (each_child cb' (s\<lparr>logged := l\<rparr>) c)) =
         unlogged (reached (each_child cb s c))"
  unfolding each_child_form using same_shape_defers[OF assms, of c]
  by (simp add: unlogged_def)

lemma each_child_unlogged:
  assumes "same_shape cb cb'" "unlogged s = unlogged t"
  shows "unlogged (reached (each_child cb s c)) = unlogged (reached (each_child cb' t c))"
  using each_child_relog[OF assms(1), where s = s and l = "logged t" and c = c]
    unlogged_eqD[OF assms(2)] by simp

lemma forEach_unlogged:
  assumes "same_shape cb cb'"
  shows "unlogged s = unlogged t \<Longrightarrow>
         unlogged (reached (forEach cb s cs)) = unlogged (reached (forEach cb' t cs)) \<and>
         isl (forEach cb s cs) = isl (forEach cb' t cs)"
proof (induction cs arbitrary: s t)
  case Nil
  then show ?case by (simp add: reached_def)
next
  case (Cons c cs)
  note th = same_shape_throws[OF assms, of c]
  from each_child_unlogged[OF assms Cons.prems]
  have e: "unlogged (reached (each_child cb s c)) = unlogged (reached (each_child cb' t c))" .
  show ?case
    unfolding forEach_Cons forEach_isl_Cons th using e Cons.IH[OF e] by simp
qed

lemma expand_listing:
  "unlogged (expand env cb p s) = unlogged (reached (forEach cb s (listing env p)))"
  by (simp add: expand_reached unlogged_update)

lemma expand_unlogged:
  assumes "same_shape cb cb'" "listing env' p = listing env p" "unlogged s = unlogged t"
  shows "unlogged (expand env cb p s) = unlogged (expand env' cb' p t)"
  using forEach_unlogged[OF assms(1,3), of "listing env p"] assms(2)
  by (simp add: expand_listing)

lemma check_done_relog: "unlogged (check_done (s\<lparr>logged := l\<rparr>)) = unlogged (check_done s)"
  by (simp add: check_done_def unlogged_def split: option.splits)

lemma check_done_unlogged:
  "unlogged s = unlogged t \<Longrightarrow> unlogged (check_done s) = unlogged (check_done t)"
  using check_done_relog[where s = s and l = "logged t"] unlogged_eqD[of s t] by simp

lemma pop_unlogged:
  assumes "unlogged s = unlogged t"
  shows "unlogged (s\<lparr>inProgress := butlast (inProgress s)\<rparr>) =
         unlogged (t\<lparr>inProgress := butlast (inProgress t)\<rparr>)"
proof -
  have "unlogged (s\<lparr>logged := l, inProgress := butlast (inProgress (s\<lparr>logged := l\<rparr>))\<rparr>) =
        unlogged (s\<lparr>inProgress := butlast (inProgress s)\<rparr>)" for l
    by (simp add: unlogged_def)
  then show ?thesis using unlogged_eqD[OF assms] by metis
qed

lemma same_fields:
  assumes "unlogged s = unlogged t"
  shows "awaiting t = awaiting s" "running t = running s" "folders t = folders s"
    "interval t = interval s" "inProgress t = inProgress s"
proof -
  have t: "t = s\<lparr>logged := logged t\<rparr>" by (rule unlogged_eqD[OF assms])
  show "awaiting t = awaiting s" by (subst t) simp
  show "running t = running s" by (subst t) simp
  show "folders t = folders s" by (subst t) simp
  show "interval t = interval s" by (subst t) simp
  show "inProgress t = inProgress s" by (subst t) simp
qed

lemma tick_relog:
  "map_option unlogged (tick (s\<lparr>logged := l\<rparr>)) = map_option unlogged (tick s)"
  by (simp add: tick_def check_done_relog) (simp add: unlogged_def)

lemma tick_unlogged:
  "unlogged s = unlogged t \<Longrightarrow> map_option unlogged (tick s) = map_option unlogged (tick t)"
  using tick_relog[where s = s and l = "logged t"] unlogged_eqD[of s t] by simp

lemma awaiting_unlogged:
  assumes "unlogged s = unlogged t"
  shows "unlogged (s\<lparr>awaiting := a\<rparr>) = unlogged (t\<lparr>awaiting := a\<rparr>)"
proof -
  have "unlogged (s\<lparr>logged := l, awaiting := a\<rparr>) = unlogged (s\<lparr>awaiting := a\<rparr>)" for l
    by (simp add: unlogged_def)
  then show ?thesis using unlogged_eqD[OF assms] by metis
qed

lemma list_response_unlogged:
  assumes "same_shape cb cb'" "\<forall>p. listing env' p = listing env p" "unlogged s = unlogged t"
  shows "map_option unlogged (list_response env cb i s) =
         map_option unlogged (list_response env' cb' i t)"
proof (cases "i < length (awaiting s)")
  case False
  then show ?thesis using same_fields(1)[OF assms(3)] by (simp add: list_response_def)
next
  case True
  note aw = same_fields(1)[OF assms(3)]
  define a where "a = take i (awaiting s) @ drop (Suc i) (awaiting s)"
  have "unlogged (expand env cb (awaiting s ! i) (s\<lparr>awaiting := a\<rparr>)) =
        unlogged (expand env' cb' (awaiting s ! i) (t\<lparr>awaiting := a\<rparr>))"
    using expand_unlogged[OF assms(1) _ awaiting_unlogged[OF assms(3)]] assms(2) by blast
  from check_done_unlogged[OF pop_unlogged[OF this]] show ?thesis
    using True by (simp add: list_response_def aw Let_def a_def)
qed

lemma running_unlogged:
  assumes "unlogged s = unlogged t"
  shows "unlogged (s\<lparr>running := a\<rparr>) = unlogged (t\<lparr>running := a\<rparr>)"
    and "unlogged (s\<lparr>running := a, logged := l1\<rparr>) = unlogged (t\<lparr>running := a, logged := l2\<rparr>)"
proof -
  have "unlogged (s\<lparr>logged := l, running := a\<rparr>) = unlogged (s\<lparr>running := a\<rparr>)" for l
    by (simp add: unlogged_def)
  then show r: "unlogged (s\<lparr>running := a\<rparr>) = unlogged (t\<lparr>running := a\<rparr>)"
    using unlogged_eqD[OF assms] by metis
  have "unlogged (x\<lparr>running := a, logged := l\<rparr>) = unlogged (x\<lparr>running := a\<rparr>)" for x l
    by (simp add: unlogged_def)
  with r show "unlogged (s\<lparr>running := a, logged := l1\<rparr>) =
      unlogged (t\<lparr>running := a, logged := l2\<rparr>)"
    by simp
qed

lemma callback_settled_form:
  "map_option unlogged (callback_settled cb i s) =
     (if cb \<noteq> None \<and> i < length (running s)
      then Some (unlogged (s\<lparr>running := take i (running s) @ drop (Suc i) (running s)\<rparr>))
      else None)"
  by (simp add: callback_settled_def Let_def unlogged_def
      split: option.split invocation.split outcome.split)

lemma callback_settled_unlogged:
  assumes "same_shape cb cb'" "unlogged s = unlogged t"
  shows "map_option unlogged (callback_settled cb i s) =
         map_option unlogged (callback_settled cb' i t)"
  unfolding callback_settled_form
  using same_shape_defers[OF assms(1)] same_fields(2)[OF assms(2)]
    running_unlogged(1)[OF assms(2)]
  by simp

lemma fire_unlogged:
  assumes "same_shape cb cb'" "\<forall>p. listing env' p = listing env p" "unlogged s = unlogged t"
  shows "map_option unlogged (fire env cb e s) = map_option unlogged (fire env' cb' e t)"
proof (cases e)
  case Tick
  then show ?thesis using tick_unlogged[OF assms(3)] by simp
next
  case (ListResponse i)
  then show ?thesis using list_response_unlogged[OF assms] by simp
next
  case (CallbackSettled i)
  then show ?thesis using callback_settled_unlogged[OF assms(1,3)] by simp
qed

lemma run_unlogged_gen:
  assumes "same_shape cb cb'" "\<forall>p. listing env' p = listing env p"
  shows "unlogged s = unlogged t \<Longrightarrow>
         map_option unlogged (run env cb es s) = map_option unlogged (run env' cb' es t)"
proof (induction es arbitrary: s t)
  case Nil
  then show ?case by simp
next
  case (Cons e es)
  note f = fire_unlogged[OF assms Cons.prems, of e]
  show ?case
  proof (cases "fire env cb e s")
    case None
    with f show ?thesis by simp
  next
    case (Some x)
    with f obtain y where y: "fire env' cb' e t = Some y" "unlogged x = unlogged y"
      by (cases "fire env' cb' e t") auto
    with Some Cons.IH[OF y(2)] show ?thesis by simp
  qed
qed

lemma run_unlogged:
  assumes "same_shape cb cb'" "\<forall>p. listing env' p = listing env p"
  shows "map_option unlogged (run env cb es s) = map_option unlogged (run env' cb' es s)"
  by (rule run_unlogged_gen[OF assms refl])

lemma same_shape_never_rejects: "same_shape (Some f) (Some (never_rejects f))"
  by (auto simp: same_shape_def never_rejects_def split: invocation.splits)

lemma same_shape_refl: "same_shape cb cb"
  by (simp add: same_shape_def split: option.splits)

lemma listing_failed_as_empty: "listing (failed_as_empty env) p = listing env p"
  by (simp add: listing_def failed_as_empty_def split: list_outcome.splits)

text \<open>
  A rejected promise changes nothing but the console: every run is, the log apart, the run
  with the same callback never rejecting.
\<close>

lemma rejection_only_logged:
  "map_option unlogged (run env (Some f) es (crawl p c)) =
     map_option unlogged (run env (Some (never_rejects f)) es (crawl p c))"
  by (rule run_unlogged[OF same_shape_never_rejects]) simp


text \<open>
  C8. A folder whose list request throws or is answered not ok is expanded as a folder
  with no children: it contributes no file, nothing below it is reached, the in-flight
  count and the promise are untouched by the failure, and every run is, the log apart, the
  run on the remote where such a request returns an empty listing.
\<close>

theorem list_failure_as_empty:
  "map_option unlogged (run env cb es (crawl p c)) =
     map_option unlogged (run (failed_as_empty env) cb es (crawl p c)) \<and>
   (list_resp env q = ListThrew \<or> list_resp env q = ListNotOk \<longrightarrow>
      tree_files env n q = [] \<and>
      files (expand env cb q s) = files s \<and> folders (expand env cb q s) = folders s \<and>
      inProgress (expand env cb q s) = inProgress s \<and> results (expand env cb q s) = results s)"
proof -
  have "tree_files env n q = []" if "list_resp env q = ListThrew \<or> list_resp env q = ListNotOk"
    using that by (cases n) auto
  moreover have "listing env q = []" if "list_resp env q = ListThrew \<or> list_resp env q = ListNotOk"
    using that by (auto simp: listing_def)
  ultimately show ?thesis
    using run_unlogged[OF same_shape_refl, of "failed_as_empty env" env cb es "crawl p c"]
    by (simp add: listing_failed_as_empty expand_files expand_folders expand_same subfolders_def)
qed

theorem list_failure_as_empty_witness:
  "list_resp demo_remote (js ''/r/t'') = ListThrew \<and>
   tree_files demo_remote 2 (js ''/r/t'') = [] \<and>
   files (expand demo_remote (Some (main_callback demo_remote)) (js ''/r/t'') demo_done) =
     files demo_done \<and>
   folders (expand demo_remote (Some (main_callback demo_remote)) (js ''/r/t'') demo_done) =
     folders demo_done \<and>
   map_option unlogged
     (run (failed_as_empty demo_remote) (Some (main_callback demo_remote)) demo_events
        (crawl (js ''/r'') 50)) = Some (unlogged demo_done)"
proof -
  have t: "list_resp demo_remote (js ''/r/t'') = ListThrew"
    by (simp add: demo_eval)
  from list_failure_as_empty
    [of demo_remote "Some (main_callback demo_remote)" demo_events "js ''/r''" 50
      "js ''/r/t''" 2 demo_done]
  show ?thesis using t by (simp add: demo_run)
qed

section \<open>The crawl resolves\<close>

lemma each_child_running_None: "running (reached (each_child None s c)) = running s"
  by (simp add: each_child_def reached_def)

lemma forEach_running_None: "running (reached (forEach None s cs)) = running s"
proof (induction cs arbitrary: s)
  case Nil
  then show ?case by (simp add: reached_def)
next
  case (Cons c cs)
  then show ?case
    by (simp add: forEach_Cons each_child_running_None throws_on_def del: forEach.simps(2))
qed

lemma fire_running_None:
  assumes "fire env None e s = Some s'" "running s = []"
  shows "running s' = []"
proof (cases e)
  case Tick
  with assms show ?thesis using tick_fields(3) by simp
next
  case (ListResponse i)
  with assms have "running s' = running (expand env None (awaiting s ! i)
      (s\<lparr>awaiting := take i (awaiting s) @ drop (Suc i) (awaiting s)\<rparr>))"
    by (auto simp: list_response_def Let_def check_done_def split: if_splits)
  then show ?thesis
    using assms(2) by (simp add: expand_reached forEach_running_None)
next
  case (CallbackSettled i)
  with assms show ?thesis by (simp add: callback_settled_def)
qed

lemma finite_frontier_fire:
  assumes "list_all (finite_tree env n) (folders s @ awaiting s)" "fire env cb e s = Some s'"
  shows "list_all (finite_tree env n) (folders s' @ awaiting s')"
proof (cases e)
  case Tick
  with assms(2) have t: "tick s = Some s'" by simp
  show ?thesis
  proof (cases "folders s = []")
    case True
    with tick_fields(7)[OF t] assms(1) show ?thesis by simp
  next
    case False
    note f = tick_fields(4,5)[OF t False]
    show ?thesis
      using assms(1) False unfolding f list_all_iff by (auto dest: in_set_butlastD)
  qed
next
  case (ListResponse i)
  with assms(2) have r: "list_response env cb i s = Some s'" by simp
  note f = list_response_fields[OF r]
  have "awaiting s ! i \<in> set (awaiting s)" using f(1) by simp
  with assms(1) have "finite_tree env n (awaiting s ! i)" by (simp add: list_all_iff)
  from finite_tree_unfold(1)[OF this]
  have "\<forall>q\<in>set (subfolders (handled cb (listing env (awaiting s ! i)))). finite_tree env n q"
    using handled_less(3)[of cb "listing env (awaiting s ! i)"] by (auto simp: list_all_iff)
  then show ?thesis
    using assms(1) unfolding f(3,5) list_all_iff
    by (auto dest: in_set_takeD in_set_dropD)
next
  case (CallbackSettled i)
  with assms(2) have c: "callback_settled cb i s = Some s'" by simp
  show ?thesis using assms(1) by (simp add: callback_settled_fields(2,3)[OF c])
qed

lemma crawl_inv_crawl: "finite_tree env n root \<Longrightarrow> crawl_inv env n root cb (crawl root c)"
  using sched_inv_crawl[of root c] tree_inv_crawl[of env n root cb c]
  by (simp add: crawl_inv_def) (simp add: crawl_def)

lemma crawl_inv_fire:
  assumes "crawl_inv env n root cb s" "fire env cb e s = Some s'"
  shows "crawl_inv env n root cb s'"
  using assms sched_inv_fire[of s env cb e s'] tree_inv_fire[of cb env n root s e s']
    fire_running_None[of env e s s'] finite_frontier_fire[of env n s cb e s']
  by (auto simp: crawl_inv_def)

lemma work_unfold:
  assumes "finite_tree env n p"
  shows "crawl_work env n p =
           2 + length (filter is_file (listing env p)) +
           sum_list (map (crawl_work env n) (subfolders (listing env p)))"
proof -
  note u = finite_tree_unfold(2,3)[OF assms]
  have "sum_list (map (crawl_work env n) qs) =
      2 * length (concat (map (tree_folders env n) qs)) +
      length (concat (map (tree_files env n) qs))" for qs
    by (induction qs) (simp_all add: crawl_work_def)
  then show ?thesis
    unfolding crawl_work_def by (subst u(1), subst u(2)) simp
qed

lemma sum_list_remove_nth:
  "i < length ps \<Longrightarrow>
   sum_list (map g ps) = (g (ps ! i) :: nat) + sum_list (map g (take i ps @ drop (Suc i) ps))"
proof -
  assume "i < length ps"
  then have "ps = take i ps @ ps ! i # drop (Suc i) ps" by (rule id_take_nth_drop)
  then have "sum_list (map g ps) = sum_list (map g (take i ps @ ps ! i # drop (Suc i) ps))"
    by simp
  then show ?thesis by simp
qed

lemma sum_list_butlast:
  "ps \<noteq> [] \<Longrightarrow> sum_list (map g ps) = sum_list (map g (butlast ps)) + (g (last ps) :: nat)"
proof -
  assume "ps \<noteq> []"
  then have "ps = butlast ps @ [last ps]" by simp
  then have "sum_list (map g ps) = sum_list (map g (butlast ps @ [last ps]))" by simp
  then show ?thesis by simp
qed

lemma work_pos: "2 \<le> crawl_work env n p"
  by (cases n) (simp_all add: crawl_work_def)

lemma schedule_productive:
  assumes "sched_inv s" "results s = None"
  shows "productive (schedule pick s) s"
proof (cases "productive (pick s) s")
  case True
  then show ?thesis by (simp add: schedule_def)
next
  case False
  from assms have i: "interval s" and ne: "folders s \<noteq> [] \<or> awaiting s \<noteq> []"
    by (auto simp: sched_inv_def)
  show ?thesis
  proof (cases "folders s = []")
    case True
    with ne False show ?thesis by (simp add: schedule_def)
  next
    case nonempty: False
    with i False show ?thesis by (simp add: schedule_def)
  qed
qed

lemma productive_decreases:
  assumes inv: "crawl_inv env n root cb s" and none: "results s = None"
    and prod: "productive e s"
  shows "\<exists>s'. fire env cb e s = Some s' \<and> remaining env n s' < remaining env n s"
proof (cases e)
  case Tick
  from inv none have i: "interval s" and ne: "folders s \<noteq> [] \<or> inProgress s \<noteq> []"
    by (auto simp: crawl_inv_def sched_inv_def)
  with prod Tick have f: "folders s \<noteq> []" by auto
  with i obtain s' where s': "tick s = Some s'" by (simp add: tick_def)
  note t = tick_fields(3)[OF s'] tick_fields(4,5)[OF s' f]
  have "remaining env n s' < remaining env n s"
    unfolding remaining_def t
    using sum_list_butlast[OF f, of "crawl_work env n"] work_pos[of env n "last (folders s)"]
    by simp
  with s' Tick show ?thesis by simp
next
  case (ListResponse i)
  with prod have i: "i < length (awaiting s)" by simp
  then obtain s' where s': "list_response env cb i s = Some s'"
    by (simp add: list_response_def Let_def)
  note f = list_response_fields[OF s']
  have "awaiting s ! i \<in> set (awaiting s)" using i by simp
  with inv have fin: "finite_tree env n (awaiting s ! i)"
    by (simp add: crawl_inv_def list_all_iff)
  have "remaining env n s' < remaining env n s"
    unfolding remaining_def f(3,5)
    using f(8) work_unfold[OF fin]
      handled_less(1)[of cb "listing env (awaiting s ! i)"]
      handled_less(2)[of "crawl_work env n" cb "listing env (awaiting s ! i)"]
      sum_list_remove_nth[OF i, of "\<lambda>p. crawl_work env n p - 1"]
    by simp
  with s' ListResponse show ?thesis by simp
next
  case (CallbackSettled i)
  with prod have i: "i < length (running s)" by simp
  with inv obtain f where cb: "cb = Some f" by (cases cb) (auto simp: crawl_inv_def)
  have "callback_settled cb i s \<noteq> None"
    unfolding cb using i
    by (simp add: callback_settled_def Let_def split: invocation.splits outcome.splits)
  then obtain s' where s': "callback_settled cb i s = Some s'" by blast
  note c = callback_settled_fields(2,3,10)[OF s']
  have "remaining env n s' < remaining env n s"
    unfolding remaining_def c using i by simp
  with s' CallbackSettled show ?thesis by simp
qed

lemma resolved_files:
  assumes "crawl_inv env n root cb s" "results s = Some fs" "async_callback cb"
  shows "mset fs = mset (tree_files env n root)"
proof -
  from assms(1,2) have "fs = files s" "folders s = []" "awaiting s = []"
    by (auto simp: crawl_inv_def sched_inv_def)
  with assms(1,3) show ?thesis by (simp add: crawl_inv_def tree_inv_def over_simps)
qed

lemma await_results_total:
  assumes "finite_tree env n root"
  shows "crawl_inv env n root cb s \<Longrightarrow> remaining env n s \<le> k \<Longrightarrow>
         \<exists>fs. await_results env cb pick k s = Some fs \<and>
              (async_callback cb \<longrightarrow> mset fs = mset (tree_files env n root))"
proof (induction k arbitrary: s)
  case 0
  show ?case
  proof (cases "results s")
    case None
    from productive_decreases[OF "0.prems"(1) None schedule_productive[OF _ None, of pick]]
      "0.prems"
    show ?thesis by (auto simp: crawl_inv_def)
  next
    case (Some fs)
    with resolved_files[OF "0.prems"(1) Some] show ?thesis by simp
  qed
next
  case (Suc k)
  show ?case
  proof (cases "results s")
    case None
    from Suc.prems(1) have si: "sched_inv s" by (simp add: crawl_inv_def)
    from productive_decreases[OF Suc.prems(1) None schedule_productive[OF si None, of pick]]
    obtain s' where s': "fire env cb (schedule pick s) s = Some s'"
      "remaining env n s' < remaining env n s" by blast
    with Suc.prems have "remaining env n s' \<le> k" by simp
    from Suc.IH[OF crawl_inv_fire[OF Suc.prems(1) s'(1)] this] None s'(1)
    show ?thesis by simp
  next
    case (Some fs)
    with resolved_files[OF Suc.prems(1) Some] show ?thesis by simp
  qed
qed

text \<open>
  C9. On every remote tree, whatever the outcomes of the remote calls and whatever the
  callback does (rejecting, or throwing in the call), under every scheduler the results
  promise is resolved after at most two productive events per folder and one per file,
  with the files recorded; these are the files the listing reaches when the callback is
  an async function or absent. The promise has no other way to settle.
\<close>

theorem crawl_always_resolves:
  assumes "finite_tree env n root"
  shows "\<exists>fs. await_results env cb pick (crawl_work env n root) (crawl root c) = Some fs \<and>
              (async_callback cb \<longrightarrow> mset fs = mset (tree_files env n root))"
proof -
  have "remaining env n (crawl root c) = crawl_work env n root"
    by (simp add: remaining_def crawl_def)
  moreover have "crawl_inv env n root cb (crawl root c)"
    by (rule crawl_inv_crawl[OF assms])
  ultimately show ?thesis
    using await_results_total[OF assms, where k = "crawl_work env n root" and cb = cb
        and s = "crawl root c" and pick = pick]
    by simp
qed

lemma failing_tree:
  "finite_tree failing_remote (Suc 0) (js ''/r'')"
  "tree_files failing_remote (Suc 0) (js ''/r'') = []"
  "crawl_work failing_remote (Suc 0) (js ''/r'') = 2"
  by (simp_all add: crawl_work_def failing_remote_def)

theorem crawl_always_resolves_witness:
  "finite_tree failing_remote (Suc 0) (js ''/r'') \<and>
   await_results failing_remote (Some (main_callback failing_remote)) (\<lambda>s. Tick) 2
     (crawl (js ''/r'') 50) = Some [] \<and>
   finite_tree demo_remote 2 (js ''/r'') \<and>
   async_callback (Some (main_callback demo_remote)) \<and>
   (\<exists>fs. await_results demo_remote (Some (main_callback demo_remote)) (\<lambda>s. CallbackSettled 0)
           (crawl_work demo_remote 2 (js ''/r'')) (crawl (js ''/r'') 50) = Some fs \<and>
         mset fs = mset [file_a, file_b]) \<and>
   (\<exists>fs. await_results demo_remote (Some throwing_callback) (\<lambda>s. Tick)
           (crawl_work demo_remote 2 (js ''/r'')) (crawl (js ''/r'') 50) = Some fs)"
proof -
  obtain fs where
    "await_results failing_remote (Some (main_callback failing_remote)) (\<lambda>s. Tick)
       (crawl_work failing_remote (Suc 0) (js ''/r'')) (crawl (js ''/r'') 50) = Some fs"
    "mset fs = mset (tree_files failing_remote (Suc 0) (js ''/r''))"
    using crawl_always_resolves [OF failing_tree(1)] main_callback_async by blast
  then have "await_results failing_remote (Some (main_callback failing_remote)) (\<lambda>s. Tick) 2
       (crawl (js ''/r'') 50) = Some []"
    unfolding failing_tree by simp
  moreover have "\<exists>fs. await_results demo_remote (Some (main_callback demo_remote))
           (\<lambda>s. CallbackSettled 0) (crawl_work demo_remote 2 (js ''/r''))
           (crawl (js ''/r'') 50) = Some fs \<and> mset fs = mset [file_a, file_b]"
    using crawl_always_resolves [OF demo_tree(1), of "Some (main_callback demo_remote)"
        "\<lambda>s. CallbackSettled 0" 50] main_callback_async [of demo_remote]
    by (simp add: demo_tree)
  moreover have "\<exists>fs. await_results demo_remote (Some throwing_callback) (\<lambda>s. Tick)
           (crawl_work demo_remote 2 (js ''/r'')) (crawl (js ''/r'') 50) = Some fs"
    using crawl_always_resolves [OF demo_tree(1)] by blast
  ultimately show ?thesis using failing_tree(1) demo_tree(1) main_callback_async by simp
qed

section \<open>What the scheduler does not wait for\<close>

lemma demo_outcomes:
  "snd (callback demo_remote file_a) = Fulfilled" "snd (callback demo_remote file_b) = Fulfilled"
proof -
  have ends: "endsWith (path file_a) (js ''.html'')" "endsWith (path file_b) (js ''.html'')"
    and src: "source_resp demo_remote (path file_a) = SourceText (js ''A'')"
      "source_resp demo_remote (path file_b) = SourceText (js ''B'')"
    by (simp_all add: demo_remote_def file_a_def file_b_def endsWith_def js_def)
  have prs: "parse demo_remote (js ''A'') = hello_doc" "parse demo_remote (js ''B'') = digits_doc"
    by (simp_all add: demo_remote_def js_def)
  obtain e where e: "body hello_doc = Some e" by (simp add: hello_doc_def)
  have pub: "publish_resp demo_remote u d = PublishResponse True" for u d
    by (simp add: demo_remote_def)
  show "snd (callback demo_remote file_a) = Fulfilled"
    by (simp add: callback_def ends src prs hello_not_blank e pub)
  show "snd (callback demo_remote file_b) = Fulfilled"
    by (simp add: callback_def ends src prs digits_blank)
qed

lemma demo_settle:
  "run demo_remote (Some (main_callback demo_remote)) [CallbackSettled 0, CallbackSettled 0]
     demo_done = Some (demo_done\<lparr>running := []\<rparr>)"
proof -
  have a: "main_callback demo_remote file_a = Deferred Fulfilled"
    and b: "main_callback demo_remote file_b = Deferred Fulfilled"
    using demo_outcomes
    by (simp_all add: main_callback_def file_a_def file_b_def endsWith_def js_def)
  show ?thesis by (simp add: demo_done_def callback_settled_def a b)
qed

lemma run_append:
  "run env cb (es @ es') s =
     (case run env cb es s of None \<Rightarrow> None | Some s' \<Rightarrow> run env cb es' s')"
  by (induction es arbitrary: s) (simp_all split: option.splits)

text \<open>
  C6. The completion check never reads the running callbacks, and there is a run of the
  crawl of \<open>/r\<close> in which the results promise is resolved while both file callbacks are
  still running; they finish afterwards, and the promise keeps its value.
\<close>

theorem resolves_while_callbacks_run:
  "(\<forall>s r. results (check_done (s\<lparr>running := r\<rparr>)) = results (check_done s)) \<and>
   (\<exists>es s. run demo_remote (Some (main_callback demo_remote)) es (crawl (js ''/r'') 50) = Some s \<and>
      results s = Some [file_a, file_b] \<and> running s = [file_a, file_b] \<and>
      (\<exists>s'. run demo_remote (Some (main_callback demo_remote)) [CallbackSettled 0, CallbackSettled 0] s
             = Some s' \<and> running s' = [] \<and> results s' = results s))"
proof -
  have "\<forall>s r. results (check_done (s\<lparr>running := r\<rparr>)) = results (check_done s)"
    by (simp add: check_done_def split: option.splits)
  moreover have "results demo_done = Some [file_a, file_b]" "running demo_done = [file_a, file_b]"
    by (simp_all add: demo_done_def)
  ultimately show ?thesis using demo_run demo_settle by fastforce
qed

theorem resolves_while_callbacks_run_witness:
  "\<exists>es s. run demo_remote (Some (main_callback demo_remote)) es (crawl (js ''/r'') 50) = Some s \<and>
     results s \<noteq> None \<and> running s \<noteq> []"
  using resolves_while_callbacks_run by force

text \<open>
  C1, at a failing input. \<open>crawl\<close> does not read \<open>concurrent\<close>: called with the limit 1 on
  \<open>/r\<close>, whose listing holds two folders, two ticks of the timer before either list
  request is answered put two expansions in flight.
\<close>

theorem in_flight_exceeds_concurrent:
  "crawl (js ''/r'') 1 = crawl (js ''/r'') 50 \<and>
   map_option (\<lambda>s. (length (inProgress s), awaiting s))
     (run demo_remote (Some (main_callback demo_remote)) [Tick, ListResponse 0, Tick, Tick]
        (crawl (js ''/r'') 1)) =
   Some (2, [js ''/r/t'', js ''/r/s''])"
  by (simp add: run_eval demo_eval)

end
